theory Spec2Isabelle
  imports Complex_Main "HOL-Library.Word" "HOL-Library.Multiset"
begin

unbundle bit_operations_syntax

section \<open>JavaScript values used by the ingestion script\<close>

subsection \<open>Strings\<close>

text \<open>
  A JavaScript string is a sequence of UTF-16 code units, and a regular expression without
  the \<^verbatim>\<open>u\<close> flag works on code units. A code unit is a number below \<open>65536\<close>.
\<close>

type_synonym jschar = nat
type_synonym jsstring = "jschar list"

definition ascii :: "string \<Rightarrow> jsstring" where
  "ascii cs = map of_char cs"

definition SECT :: jschar where \<comment> \<open>the section mark, U+00A7\<close>
  "SECT = 0xA7"

definition LDQ :: jschar where \<comment> \<open>left typographic double quote, U+201C\<close>
  "LDQ = 0x201C"

definition RDQ :: jschar where \<comment> \<open>right typographic double quote, U+201D\<close>
  "RDQ = 0x201D"

definition DOT :: jschar where
  "DOT = 0x2E"

definition SP :: jschar where
  "SP = 0x20"

definition NL :: jschar where
  "NL = 0x0A"

text \<open>
  The class \<^verbatim>\<open>\s\<close> and the characters \<^verbatim>\<open>String.prototype.trim\<close> strips are the
  same set: WhiteSpace and LineTerminator of ECMAScript.
\<close>

definition is_space :: "jschar \<Rightarrow> bool" where
  "is_space c \<longleftrightarrow>
     (0x09 \<le> c \<and> c \<le> 0x0D) \<or> c = 0x20 \<or> c = 0xA0 \<or> c = 0x1680 \<or>
     (0x2000 \<le> c \<and> c \<le> 0x200A) \<or> c = 0x2028 \<or> c = 0x2029 \<or> c = 0x202F \<or>
     c = 0x205F \<or> c = 0x3000 \<or> c = 0xFEFF"

definition is_digit :: "jschar \<Rightarrow> bool" where \<comment> \<open>the class \<^verbatim>\<open>\d\<close>\<close>
  "is_digit c \<longleftrightarrow> 0x30 \<le> c \<and> c \<le> 0x39"

definition trim :: "jsstring \<Rightarrow> jsstring" where
  "trim s = rev (dropWhile is_space (rev (dropWhile is_space s)))"

fun join :: "jsstring \<Rightarrow> jsstring list \<Rightarrow> jsstring" where
  "join sep [] = []"
| "join sep [x] = x"
| "join sep (x # y # ys) = x @ sep @ join sep (y # ys)"

subsection \<open>Numbers\<close>

text \<open>
  A JavaScript number is a binary64 float: a finite value is a rational \<open>k * 2 ^ e\<close> with
  \<open>\<bar>k\<bar> < 2 ^ 53\<close> and \<open>- 1074 \<le> e \<le> 971\<close>, and there are three values that are not
  finite, which division by zero produces instead of raising. A finite value is carried as
  the rational it is. The script only divides and multiplies counts, so the sign of a zero
  is not kept: every zero it meets is \<open>+0\<close>.

  Every operation returns its exact result rounded to the nearest float, a tie going to the
  one with the even significand (IEEE 754, ECMAScript \<^verbatim>\<open>Number::divide\<close> and
  \<^verbatim>\<open>Number::multiply\<close>). \<open>bits n\<close> is the number of binary digits of \<open>n\<close> and
  \<open>floor_log2 x\<close> the exponent \<open>e\<close> with \<open>2 ^ e \<le> x < 2 ^ (e + 1)\<close>; a float with that
  exponent is a multiple of \<open>2 ^ (e - 52)\<close>, and of \<open>2 ^ - 1074\<close> below the normal range.
  A result that rounds to \<open>2 ^ 1024\<close> or beyond is infinite.
\<close>

datatype jsnum = Fin rat | NaN | PosInf | NegInf

function bits :: "nat \<Rightarrow> nat" where
  "bits n = (if n = 0 then 0 else Suc (bits (n div 2)))"
  by pat_completeness auto
termination
  by (relation "measure id") auto

declare bits.simps [simp del]

definition pow2 :: "int \<Rightarrow> rat" where
  "pow2 e = (if 0 \<le> e then 2 ^ nat e else 1 / 2 ^ nat (- e))"

definition floor_log2 :: "rat \<Rightarrow> int" where
  "floor_log2 x =
     (if 1 \<le> x then int (bits (nat \<lfloor>x\<rfloor>)) - 1 else - int (bits (nat (\<lceil>1 / x\<rceil> - 1))))"

definition round_even :: "rat \<Rightarrow> int" where
  "round_even y =
     (let f = \<lfloor>y\<rfloor>; r = y - of_int f
      in if r < 1 / 2 then f else if 1 / 2 < r then f + 1 else if even f then f else f + 1)"

definition round64 :: "rat \<Rightarrow> jsnum" where
  "round64 x =
     (if x = 0 then Fin 0
      else let q = pow2 (max (floor_log2 \<bar>x\<bar>) (- 1022) - 52);
               y = of_int (round_even (x / q)) * q
           in if 2 ^ 1024 \<le> \<bar>y\<bar> then (if 0 < x then PosInf else NegInf) else Fin y)"

fun js_div :: "jsnum \<Rightarrow> jsnum \<Rightarrow> jsnum" where
  "js_div (Fin a) (Fin b) =
     (if b = 0 then (if a = 0 then NaN else if 0 < a then PosInf else NegInf)
      else round64 (a / b))"
| "js_div (Fin a) PosInf = Fin 0"
| "js_div (Fin a) NegInf = Fin 0"
| "js_div PosInf (Fin b) = (if 0 \<le> b then PosInf else NegInf)"
| "js_div NegInf (Fin b) = (if 0 \<le> b then NegInf else PosInf)"
| "js_div _ _ = NaN"

fun js_mul :: "jsnum \<Rightarrow> jsnum \<Rightarrow> jsnum" where
  "js_mul (Fin a) (Fin b) = round64 (a * b)"
| "js_mul PosInf (Fin b) = (if b = 0 then NaN else if 0 < b then PosInf else NegInf)"
| "js_mul NegInf (Fin b) = (if b = 0 then NaN else if 0 < b then NegInf else PosInf)"
| "js_mul (Fin a) PosInf = (if a = 0 then NaN else if 0 < a then PosInf else NegInf)"
| "js_mul (Fin a) NegInf = (if a = 0 then NaN else if 0 < a then NegInf else PosInf)"
| "js_mul PosInf PosInf = PosInf"
| "js_mul NegInf NegInf = PosInf"
| "js_mul PosInf NegInf = NegInf"
| "js_mul NegInf PosInf = NegInf"
| "js_mul _ _ = NaN"

text \<open>
  A count is the \<^verbatim>\<open>length\<close> of an array, an integer below \<open>2 ^ 32\<close>, which is a float.
\<close>

definition num :: "nat \<Rightarrow> jsnum" where
  "num n = Fin (of_nat n)"

section \<open>Regular expressions\<close>

text \<open>
  The three patterns of the script use single characters, the classes \<^verbatim>\<open>\s\<close>,
  \<^verbatim>\<open>\d\<close> and \<^verbatim>\<open>[^c]\<close>, sequencing, and the greedy quantifiers \<^verbatim>\<open>*\<close> and
  \<^verbatim>\<open>+\<close>.
\<close>

datatype atom = Lit jschar | Space | Digit | NotLit jschar

datatype regex = Atom atom | Seq regex regex | Star regex

definition OneOrMore :: "regex \<Rightarrow> regex" where
  "OneOrMore r = Seq r (Star r)"

fun accepts :: "atom \<Rightarrow> jschar \<Rightarrow> bool" where
  "accepts (Lit a) c \<longleftrightarrow> c = a"
| "accepts Space c \<longleftrightarrow> is_space c"
| "accepts Digit c \<longleftrightarrow> is_digit c"
| "accepts (NotLit a) c \<longleftrightarrow> c \<noteq> a"

text \<open>
  \<open>ends r s\<close> lists what is left of \<open>s\<close> after each way \<open>r\<close> can match a prefix of it,
  in the order a backtracking matcher tries them: a greedy quantifier first takes one
  more iteration, and an iteration that consumes nothing is not taken. The first element
  is the match that \<^verbatim>\<open>exec\<close> reports at that position.
\<close>

fun star_ends :: "(jsstring \<Rightarrow> jsstring list) \<Rightarrow> nat \<Rightarrow> jsstring \<Rightarrow> jsstring list" where
  "star_ends f 0 s = [s]"
| "star_ends f (Suc n) s =
     concat (map (star_ends f n) (filter (\<lambda>t. length t < length s) (f s))) @ [s]"

fun ends :: "regex \<Rightarrow> jsstring \<Rightarrow> jsstring list" where
  "ends (Atom a) [] = []"
| "ends (Atom a) (c # cs) = (if accepts a c then [cs] else [])"
| "ends (Seq p q) s = concat (map (ends q) (ends p s))"
| "ends (Star p) s = star_ends (ends p) (length s) s"

text \<open>
  \<^verbatim>\<open>String.prototype.match\<close> with a global pattern: scan from the left, at each
  position take the first match, continue after it (one further on after an empty match).
  The result is the list of matched substrings, \<^verbatim>\<open>null\<close> when there is none.
\<close>

function match_all :: "regex \<Rightarrow> jsstring \<Rightarrow> jsstring list" where
  "match_all r [] = (case ends r [] of [] \<Rightarrow> [] | e # _ \<Rightarrow> [[]])"
| "match_all r (c # cs) =
     (case ends r (c # cs) of
        [] \<Rightarrow> match_all r cs
      | e # _ \<Rightarrow>
          if length e < Suc (length cs)
          then take (Suc (length cs) - length e) (c # cs) # match_all r e
          else [] # match_all r cs)"
  by pat_completeness auto
termination
  by (relation "measure (\<lambda>(r, s). length s)") auto

definition js_match :: "regex \<Rightarrow> jsstring \<Rightarrow> jsstring list option" where
  "js_match r s = (case match_all r s of [] \<Rightarrow> None | ms \<Rightarrow> Some ms)"

text \<open>
  \<^verbatim>\<open>String.prototype.split\<close> with a pattern (no capture groups, no limit): \<open>piece\<close> is
  the text since the last separator, the last argument what is still to be scanned.
\<close>

function split_from :: "regex \<Rightarrow> jsstring \<Rightarrow> jsstring \<Rightarrow> jsstring list" where
  "split_from r piece [] = [piece]"
| "split_from r piece (c # cs) =
     (case ends r (c # cs) of
        [] \<Rightarrow> split_from r (piece @ [c]) cs
      | e # _ \<Rightarrow>
          if length e < Suc (length cs) then piece # split_from r [] e
          else if piece = [] then split_from r [c] cs
          else piece # split_from r [c] cs)"
  by pat_completeness auto
termination
  by (relation "measure (\<lambda>(r, piece, s). length s)") auto

definition split :: "regex \<Rightarrow> jsstring \<Rightarrow> jsstring list" where
  "split r s = (if s = [] then (if ends r [] = [] then [[]] else []) else split_from r [] s)"

section \<open>The metrics of the ingestion script\<close>

definition REF_RE :: regex where \<comment> \<open>\<^verbatim>\<open>/\<section>\s*\d+(\.\d+)*/g\<close>\<close>
  "REF_RE =
     Seq (Atom (Lit SECT))
       (Seq (Star (Atom Space))
         (Seq (OneOrMore (Atom Digit))
           (Star (Seq (Atom (Lit DOT)) (OneOrMore (Atom Digit))))))"

definition DEF_RE :: regex where \<comment> \<open>a left quote, \<^verbatim>\<open>[^\<close>right quote\<^verbatim>\<open>]+\<close>, a right quote\<close>
  "DEF_RE = Seq (Atom (Lit LDQ)) (Seq (OneOrMore (Atom (NotLit RDQ))) (Atom (Lit RDQ)))"

definition WS_RE :: regex where \<comment> \<open>\<^verbatim>\<open>/\s+/\<close>\<close>
  "WS_RE = OneOrMore (Atom Space)"

definition or_empty :: "'a list option \<Rightarrow> 'a list" where \<comment> \<open>\<^verbatim>\<open>x || []\<close>\<close>
  "or_empty m = (case m of None \<Rightarrow> [] | Some xs \<Rightarrow> xs)"

definition computeRefDensity :: "jsstring \<Rightarrow> nat \<Rightarrow> jsnum" where
  "computeRefDensity content wordCount =
     (let refs = length (or_empty (js_match REF_RE content))
      in js_mul (js_div (num refs) (num wordCount)) (Fin 1000))"

definition computeDefFreq :: "jsstring \<Rightarrow> nat \<Rightarrow> jsnum" where
  "computeDefFreq content wordCount =
     (let defs = length (or_empty (js_match DEF_RE content))
      in js_div (num defs) (num wordCount))"

definition countWords :: "jsstring \<Rightarrow> nat" where
  \<comment> \<open>\<^verbatim>\<open>content.trim().split(/\s+/).filter(Boolean).length\<close>\<close>
  "countWords content = length (filter (\<lambda>w. w \<noteq> []) (split WS_RE (trim content)))"

section \<open>The checksum\<close>

text \<open>
  \<^verbatim>\<open>crypto.createHash('sha256').update(text).digest('hex')\<close>: the string is encoded as
  UTF-8 (a surrogate pair as one code point, a lone surrogate as U+FFFD), hashed with
  SHA-256 as FIPS 180-4 defines it, and the eight 32-bit words of the digest are written as
  lower-case hexadecimal digits.
\<close>

type_synonym byte = nat
type_synonym w32 = "32 word"
type_synonym hash = "w32 \<times> w32 \<times> w32 \<times> w32 \<times> w32 \<times> w32 \<times> w32 \<times> w32"

definition is_high :: "jschar \<Rightarrow> bool" where
  "is_high c \<longleftrightarrow> 0xD800 \<le> c \<and> c \<le> 0xDBFF"

definition is_low :: "jschar \<Rightarrow> bool" where
  "is_low c \<longleftrightarrow> 0xDC00 \<le> c \<and> c \<le> 0xDFFF"

definition utf8_point :: "nat \<Rightarrow> byte list" where
  "utf8_point p =
     (if p < 0x80 then [p]
      else if p < 0x800 then [0xC0 + p div 64, 0x80 + p mod 64]
      else if p < 0x10000 then [0xE0 + p div 4096, 0x80 + (p div 64) mod 64, 0x80 + p mod 64]
      else [0xF0 + p div 262144, 0x80 + (p div 4096) mod 64, 0x80 + (p div 64) mod 64,
            0x80 + p mod 64])"

definition utf8_unit :: "jschar \<Rightarrow> byte list" where
  "utf8_unit c = (if is_high c \<or> is_low c then utf8_point 0xFFFD else utf8_point c)"

fun utf8 :: "jsstring \<Rightarrow> byte list" where
  "utf8 [] = []"
| "utf8 [c] = utf8_unit c"
| "utf8 (c # d # ds) =
     (if is_high c \<and> is_low d
      then utf8_point (0x10000 + (c - 0xD800) * 1024 + (d - 0xDC00)) @ utf8 ds
      else utf8_unit c @ utf8 (d # ds))"

definition rotr :: "nat \<Rightarrow> w32 \<Rightarrow> w32" where
  "rotr n x = drop_bit n x OR push_bit (32 - n) x"

definition Ch :: "w32 \<Rightarrow> w32 \<Rightarrow> w32 \<Rightarrow> w32" where
  "Ch x y z = (x AND y) XOR (NOT x AND z)"

definition Maj :: "w32 \<Rightarrow> w32 \<Rightarrow> w32 \<Rightarrow> w32" where
  "Maj x y z = (x AND y) XOR (x AND z) XOR (y AND z)"

definition bsig0 :: "w32 \<Rightarrow> w32" where
  "bsig0 x = rotr 2 x XOR rotr 13 x XOR rotr 22 x"

definition bsig1 :: "w32 \<Rightarrow> w32" where
  "bsig1 x = rotr 6 x XOR rotr 11 x XOR rotr 25 x"

definition ssig0 :: "w32 \<Rightarrow> w32" where
  "ssig0 x = rotr 7 x XOR rotr 18 x XOR drop_bit 3 x"

definition ssig1 :: "w32 \<Rightarrow> w32" where
  "ssig1 x = rotr 17 x XOR rotr 19 x XOR drop_bit 10 x"

definition K256 :: "w32 list" where
  "K256 =
    [0x428A2F98, 0x71374491, 0xB5C0FBCF, 0xE9B5DBA5, 0x3956C25B, 0x59F111F1, 0x923F82A4, 0xAB1C5ED5,
     0xD807AA98, 0x12835B01, 0x243185BE, 0x550C7DC3, 0x72BE5D74, 0x80DEB1FE, 0x9BDC06A7, 0xC19BF174,
     0xE49B69C1, 0xEFBE4786, 0x0FC19DC6, 0x240CA1CC, 0x2DE92C6F, 0x4A7484AA, 0x5CB0A9DC, 0x76F988DA,
     0x983E5152, 0xA831C66D, 0xB00327C8, 0xBF597FC7, 0xC6E00BF3, 0xD5A79147, 0x06CA6351, 0x14292967,
     0x27B70A85, 0x2E1B2138, 0x4D2C6DFC, 0x53380D13, 0x650A7354, 0x766A0ABB, 0x81C2C92E, 0x92722C85,
     0xA2BFE8A1, 0xA81A664B, 0xC24B8B70, 0xC76C51A3, 0xD192E819, 0xD6990624, 0xF40E3585, 0x106AA070,
     0x19A4C116, 0x1E376C08, 0x2748774C, 0x34B0BCB5, 0x391C0CB3, 0x4ED8AA4A, 0x5B9CCA4F, 0x682E6FF3,
     0x748F82EE, 0x78A5636F, 0x84C87814, 0x8CC70208, 0x90BEFFFA, 0xA4506CEB, 0xBEF9A3F7, 0xC67178F2]"

definition H256 :: hash where
  "H256 = (0x6A09E667, 0xBB67AE85, 0x3C6EF372, 0xA54FF53A, 0x510E527F, 0x9B05688C, 0x1F83D9AB,
           0x5BE0CD19)"

definition be64 :: "nat \<Rightarrow> byte list" where
  "be64 n =
     [n div 2 ^ 56 mod 256, n div 2 ^ 48 mod 256, n div 2 ^ 40 mod 256, n div 2 ^ 32 mod 256,
      n div 2 ^ 24 mod 256, n div 2 ^ 16 mod 256, n div 2 ^ 8 mod 256, n mod 256]"

definition pad :: "byte list \<Rightarrow> byte list" where
  "pad m = m @ [0x80] @ replicate ((119 - length m mod 64) mod 64) 0 @ be64 (8 * length m)"

function blocks :: "byte list \<Rightarrow> byte list list" where
  "blocks bs = (if length bs < 64 then [] else take 64 bs # blocks (drop 64 bs))"
  by pat_completeness auto
termination
  by (relation "measure length") auto

fun block_words :: "byte list \<Rightarrow> w32 list" where
  "block_words (a # b # c # d # bs) =
     of_nat (((a * 256 + b) * 256 + c) * 256 + d) # block_words bs"
| "block_words _ = []"

text \<open>
  The message schedule: \<open>w\<close> holds the sixteen words before the one computed next.
\<close>

fun schedule :: "nat \<Rightarrow> w32 list \<Rightarrow> w32 list" where
  "schedule 0 w = []"
| "schedule (Suc n) w =
     (let x = ssig1 (w ! 14) + w ! 9 + ssig0 (w ! 1) + w ! 0
      in x # schedule n (tl w @ [x]))"

fun sha_round :: "w32 \<times> w32 \<Rightarrow> hash \<Rightarrow> hash" where
  "sha_round (k, w) (a, b, c, d, e, f, g, h) =
     (let t1 = h + bsig1 e + Ch e f g + k + w; t2 = bsig0 a + Maj a b c
      in (t1 + t2, a, b, c, d + t1, e, f, g))"

fun add_hash :: "hash \<Rightarrow> hash \<Rightarrow> hash" where
  "add_hash (a, b, c, d, e, f, g, h) (a', b', c', d', e', f', g', h') =
     (a + a', b + b', c + c', d + d', e + e', f + f', g + g', h + h')"

definition compress :: "byte list \<Rightarrow> hash \<Rightarrow> hash" where
  "compress blk hs =
     (let w = block_words blk
      in add_hash hs (fold sha_round (zip K256 (w @ schedule 48 w)) hs))"

definition sha256 :: "byte list \<Rightarrow> hash" where
  "sha256 m = fold compress (blocks (pad m)) H256"

definition hex_digit :: "nat \<Rightarrow> jschar" where
  "hex_digit n = (if n < 10 then 0x30 + n else 0x57 + n)"

definition hex32 :: "w32 \<Rightarrow> jsstring" where
  "hex32 w =
     (let n = unat w
      in map hex_digit
           [n div 16 ^ 7 mod 16, n div 16 ^ 6 mod 16, n div 16 ^ 5 mod 16, n div 16 ^ 4 mod 16,
            n div 16 ^ 3 mod 16, n div 16 ^ 2 mod 16, n div 16 mod 16, n mod 16])"

fun digest_hex :: "hash \<Rightarrow> jsstring" where
  "digest_hex (a, b, c, d, e, f, g, h) =
     hex32 a @ hex32 b @ hex32 c @ hex32 d @ hex32 e @ hex32 f @ hex32 g @ hex32 h"

definition computeChecksum :: "jsstring \<Rightarrow> jsstring" where
  "computeChecksum text = digest_hex (sha256 (utf8 text))"

definition is_hex :: "jschar \<Rightarrow> bool" where
  "is_hex c \<longleftrightarrow> (0x30 \<le> c \<and> c \<le> 0x39) \<or> (0x61 \<le> c \<and> c \<le> 0x66)"

section \<open>The ingestion script\<close>

subsection \<open>What the script talks to\<close>

text \<open>
  The publisher's service, the XML parser and the store are outside the script. A run sees
  them as a \<open>world\<close>: what each request answers (an error when the call throws or the
  promise rejects), what the parser makes of a document, and whether the store takes a
  write. Dates are day numbers.
\<close>

type_synonym date = nat

datatype error = NetworkError | TitleNotFound nat | ParseError | ValidationError | StoreError
  | TypeError

record title_meta =
  number :: nat
  up_to_date_as_of :: date

record titles_json =
  titles :: "title_meta list"
  import_in_progress :: bool

text \<open>
  The parser's result, as far as the script reads it: \<^verbatim>\<open>result.regulation\<close> with its
  \<^verbatim>\<open>$.title\<close> and its \<^verbatim>\<open>section\<close> array, each section with \<^verbatim>\<open>$.label\<close> and
  \<^verbatim>\<open>paragraph\<close> (\<open>None\<close> when it is not an array), each paragraph with its text
  \<^verbatim>\<open>_\<close>. \<open>None\<close> stands for a property that is missing.
\<close>

record xml_section =
  sec_label :: "jsstring option"
  sec_paragraph :: "jsstring option list option"

record xml_regulation =
  reg_title :: "jsstring option"
  reg_section :: "xml_section list option"

type_synonym xml_result = "xml_regulation option"

text \<open>The schema of \<^verbatim>\<open>models/Regulation.js\<close>: seven required fields.\<close>

record regulation =
  agency :: jsstring
  title :: jsstring
  versionDate :: date
  wordCount :: nat
  checksum :: jsstring
  refDensity :: jsnum
  defFreq :: jsnum

text \<open>The collection: the documents in the order they were inserted, each with its id.\<close>

type_synonym db = "(nat \<times> regulation) list"

record world =
  titles_index :: "error + titles_json"
  titles_for :: "nat \<Rightarrow> error + titles_json"
  full_xml :: "date \<Rightarrow> nat \<Rightarrow> error + jsstring"
  parse_xml :: "jsstring \<Rightarrow> error + xml_result"
  connect_fails :: bool
  store_fails :: "regulation \<Rightarrow> bool"

datatype console_line =
    Warn_import_in_progress
  | Error_fetching_title nat error
  | Ingested jsstring jsstring date jsnum jsnum
  | Done_disconnected

subsection \<open>\<^verbatim>\<open>getLatestVersionDate\<close> and \<^verbatim>\<open>fetchTitle\<close>\<close>

function decimal :: "nat \<Rightarrow> jsstring" where
  "decimal n = (if n < 10 then [0x30 + n] else decimal (n div 10) @ [0x30 + n mod 10])"
  by pat_completeness auto
termination
  by (relation "measure id") auto

definition title_name :: "nat \<Rightarrow> jsstring" where \<comment> \<open>the template \<^verbatim>\<open>Title ${titleNumber}\<close>\<close>
  "title_name n = ascii ''Title '' @ decimal n"

definition getLatestVersionDate :: "world \<Rightarrow> nat \<Rightarrow> (error + date) \<times> console_line list" where
  "getLatestVersionDate w titleNumber =
     (case titles_for w titleNumber of
        Inl e \<Rightarrow> (Inl e, [])
      | Inr data \<Rightarrow>
          (case find (\<lambda>t. number t = titleNumber) (titles data) of
             None \<Rightarrow> (Inl (TitleNotFound titleNumber), [])
           | Some meta \<Rightarrow>
               (Inr (up_to_date_as_of meta),
                if import_in_progress data then [Warn_import_in_progress] else [])))"

definition or_blank :: "jsstring option \<Rightarrow> jsstring" where \<comment> \<open>\<^verbatim>\<open>x || ''\<close>\<close>
  "or_blank x = (case x of None \<Rightarrow> [] | Some s \<Rightarrow> s)"

definition section_text :: "xml_section \<Rightarrow> jsstring" where
  "section_text sec =
     (let label = or_blank (sec_label sec);
          para = (case sec_paragraph sec of
                    Some ps \<Rightarrow> join [NL] (map or_blank ps)
                  | None \<Rightarrow> [])
      in trim (label @ [SP] @ para))"

definition section_texts :: "xml_result \<Rightarrow> jsstring list" where
  "section_texts result =
     (case result of
        None \<Rightarrow> []
      | Some reg \<Rightarrow> (case reg_section reg of None \<Rightarrow> [] | Some secs \<Rightarrow> map section_text secs))"

definition content_of :: "jsstring \<Rightarrow> xml_result \<Rightarrow> jsstring" where
  "content_of xml result =
     (let sections = section_texts result
      in if sections \<noteq> [] then join [NL, NL] sections else xml)"

definition title_of :: "nat \<Rightarrow> xml_result \<Rightarrow> jsstring" where
  "title_of titleNumber result =
     (case result of
        None \<Rightarrow> title_name titleNumber
      | Some reg \<Rightarrow>
          (case reg_title reg of
             None \<Rightarrow> title_name titleNumber
           | Some t \<Rightarrow> if t \<noteq> [] then t else title_name titleNumber))"

record title_info =
  info_agency :: jsstring
  info_title :: jsstring
  info_versionDate :: date
  info_content :: jsstring

text \<open>
  \<^verbatim>\<open>fetchTitle\<close> returns the four fields, or \<^verbatim>\<open>null\<close> (here \<open>None\<close>) after logging
  the error its \<^verbatim>\<open>try\<close> block caught; with it come the lines written to the console.
\<close>

definition fetchTitle :: "world \<Rightarrow> nat \<Rightarrow> title_info option \<times> console_line list" where
  "fetchTitle w titleNumber =
     (case getLatestVersionDate w titleNumber of
        (Inl e, out) \<Rightarrow> (None, out @ [Error_fetching_title titleNumber e])
      | (Inr vdate, out) \<Rightarrow>
          (case full_xml w vdate titleNumber of
             Inl e \<Rightarrow> (None, out @ [Error_fetching_title titleNumber e])
           | Inr xml \<Rightarrow>
               (case parse_xml w xml of
                  Inl e \<Rightarrow> (None, out @ [Error_fetching_title titleNumber e])
                | Inr result \<Rightarrow>
                    (Some \<lparr>info_agency = title_name titleNumber,
                           info_title = title_of titleNumber result,
                           info_versionDate = vdate,
                           info_content = content_of xml result\<rparr>, out))))"

subsection \<open>\<^verbatim>\<open>Regulation.create\<close> and \<^verbatim>\<open>ingestAll\<close>\<close>

text \<open>
  \<^verbatim>\<open>Regulation.create\<close> validates the document against the schema (a required string
  must not be empty, a number must not be NaN) and inserts it as a new document with an id
  no document of the collection has. It rejects when validation fails or the store does.
\<close>

definition schema_valid :: "regulation \<Rightarrow> bool" where
  "schema_valid doc \<longleftrightarrow>
     agency doc \<noteq> [] \<and> title doc \<noteq> [] \<and> checksum doc \<noteq> [] \<and>
     refDensity doc \<noteq> NaN \<and> defFreq doc \<noteq> NaN"

definition fresh_id :: "db \<Rightarrow> nat" where
  "fresh_id store = fold max (map fst store) 0 + 1"

definition Regulation_create :: "world \<Rightarrow> db \<Rightarrow> regulation \<Rightarrow> error + db" where
  "Regulation_create w store doc =
     (if \<not> schema_valid doc then Inl ValidationError
      else if store_fails w doc then Inl StoreError
      else Inr (store @ [(fresh_id store, doc)]))"

text \<open>The object \<^verbatim>\<open>ingestAll\<close> builds from what \<^verbatim>\<open>fetchTitle\<close> returned.\<close>

definition snapshot_of :: "title_info \<Rightarrow> regulation" where
  "snapshot_of info =
     (let content = info_content info;
          words = countWords content;
          refDensity = computeRefDensity content words;
          defFreq = computeDefFreq content words;
          checksum = computeChecksum content
      in \<lparr>agency = info_agency info, title = info_title info,
          versionDate = info_versionDate info, wordCount = words, checksum = checksum,
          refDensity = refDensity, defFreq = defFreq\<rparr>)"

text \<open>
  A run either completes or is ended by an error that leaves \<^verbatim>\<open>ingestAll\<close>; either way
  it leaves a collection and a console behind.
\<close>

datatype run = Completed db "console_line list" | Rejected error db "console_line list"

fun ingest_loop :: "world \<Rightarrow> nat list \<Rightarrow> db \<Rightarrow> console_line list \<Rightarrow> run" where
  "ingest_loop w [] store out = Completed store out"
| "ingest_loop w (t # ts) store out =
     (case fetchTitle w t of
        (None, lines) \<Rightarrow> ingest_loop w ts store (out @ lines)
      | (Some info, lines) \<Rightarrow>
          (let doc = snapshot_of info
           in case Regulation_create w store doc of
                Inl e \<Rightarrow> Rejected e store (out @ lines)
              | Inr store' \<Rightarrow>
                  ingest_loop w ts store'
                    (out @ lines @
                     [Ingested (title doc) (agency doc) (versionDate doc) (refDensity doc)
                        (defFreq doc)])))"

definition ingestAll :: "world \<Rightarrow> db \<Rightarrow> run" where
  "ingestAll w store =
     (case titles_index w of
        Inl e \<Rightarrow> Rejected e store []
      | Inr data \<Rightarrow>
          if connect_fails w then Rejected StoreError store []
          else (case ingest_loop w (map number (titles data)) store [] of
                  Completed store' out \<Rightarrow> Completed store' (out @ [Done_disconnected])
                | Rejected e store' out \<Rightarrow> Rejected e store' out))"

section \<open>The read endpoints\<close>

datatype 'a response = Json 'a | Status nat

subsection \<open>\<^verbatim>\<open>GET /api/agencies\<close>\<close>

text \<open>
  \<^verbatim>\<open>a.match(/\d+/)\<close>: the first match from the left, \<^verbatim>\<open>null\<close> when there is none;
  indexing \<^verbatim>\<open>null\<close> throws a TypeError.
\<close>

fun first_match :: "regex \<Rightarrow> jsstring \<Rightarrow> jsstring option" where
  "first_match r [] = (case ends r [] of [] \<Rightarrow> None | e # _ \<Rightarrow> Some [])"
| "first_match r (c # cs) =
     (case ends r (c # cs) of
        [] \<Rightarrow> first_match r cs
      | e # _ \<Rightarrow> Some (take (Suc (length cs) - length e) (c # cs)))"

definition DIGITS_RE :: regex where \<comment> \<open>\<^verbatim>\<open>/\d+/\<close>\<close>
  "DIGITS_RE = OneOrMore (Atom Digit)"

text \<open>
  \<^verbatim>\<open>parseInt(s, 10)\<close> on a run of digits: the number the digits spell (the number
  JavaScript returns is this one while it is below \<open>2^53\<close>).
\<close>

definition parseInt10 :: "jsstring \<Rightarrow> nat" where
  "parseInt10 s = foldl (\<lambda>a c. a * 10 + (c - 0x30)) 0 s"

definition agency_number :: "jsstring \<Rightarrow> error + nat" where
  "agency_number a =
     (case first_match DIGITS_RE a of None \<Rightarrow> Inl TypeError | Some ds \<Rightarrow> Inr (parseInt10 ds))"

definition compare_agencies :: "jsstring \<Rightarrow> jsstring \<Rightarrow> error + int" where
  "compare_agencies a b =
     (case agency_number a of
        Inl e \<Rightarrow> Inl e
      | Inr numA \<Rightarrow>
          (case agency_number b of
             Inl e \<Rightarrow> Inl e
           | Inr numB \<Rightarrow> Inr (int numA - int numB)))"

text \<open>
  \<^verbatim>\<open>Array.prototype.sort\<close> with a comparator that may throw: a stable insertion sort
  that stops at the first exception. An array of fewer than two elements is returned
  without a call of the comparator; in a longer one every element is compared at least
  once, whatever the engine's sorting algorithm.
\<close>

fun insert_by :: "('a \<Rightarrow> 'a \<Rightarrow> error + int) \<Rightarrow> 'a \<Rightarrow> 'a list \<Rightarrow> error + 'a list" where
  "insert_by cmp x [] = Inr [x]"
| "insert_by cmp x (y # ys) =
     (case cmp x y of
        Inl e \<Rightarrow> Inl e
      | Inr d \<Rightarrow>
          if d \<le> 0 then Inr (x # y # ys)
          else (case insert_by cmp x ys of Inl e \<Rightarrow> Inl e | Inr zs \<Rightarrow> Inr (y # zs)))"

fun sort_by :: "('a \<Rightarrow> 'a \<Rightarrow> error + int) \<Rightarrow> 'a list \<Rightarrow> error + 'a list" where
  "sort_by cmp [] = Inr []"
| "sort_by cmp (x # xs) =
     (case sort_by cmp xs of Inl e \<Rightarrow> Inl e | Inr ys \<Rightarrow> insert_by cmp x ys)"

definition distinct_agencies :: "db \<Rightarrow> jsstring list" where \<comment> \<open>\<^verbatim>\<open>Regulation.distinct('agency')\<close>\<close>
  "distinct_agencies store = remdups (map (agency \<circ> snd) store)"

definition agencies_handler :: "error + jsstring list \<Rightarrow> jsstring list response" where
  "agencies_handler found =
     (case found of
        Inl e \<Rightarrow> Status 500
      | Inr agencies \<Rightarrow>
          (case sort_by compare_agencies agencies of
             Inl e \<Rightarrow> Status 500
           | Inr res \<Rightarrow> Json res))"

subsection \<open>\<^verbatim>\<open>GET /api/agencies/:agency/metrics\<close>\<close>

text \<open>
  \<^verbatim>\<open>find({agency}).sort({versionDate: -1}).limit(1)\<close>: the documents of the agency,
  latest as-of date first, cut after the first. Among documents of one date the order is
  the store's; here it is the order of insertion.
\<close>

definition find_latest :: "db \<Rightarrow> jsstring \<Rightarrow> regulation list" where
  "find_latest store a =
     take 1 (sort_key (\<lambda>d. - int (versionDate d)) (filter (\<lambda>d. agency d = a) (map snd store)))"

record metrics =
  m_wordCount :: nat
  m_checksum :: jsstring
  m_refDensity :: jsnum
  m_defFreq :: jsnum

definition metrics_of :: "regulation \<Rightarrow> metrics" where
  "metrics_of doc =
     \<lparr>m_wordCount = wordCount doc, m_checksum = checksum doc, m_refDensity = refDensity doc,
      m_defFreq = defFreq doc\<rparr>"

definition metrics_handler :: "error + regulation list \<Rightarrow> metrics response" where
  "metrics_handler found =
     (case found of
        Inl e \<Rightarrow> Status 500
      | Inr [] \<Rightarrow> Status 404
      | Inr (doc # _) \<Rightarrow> Json (metrics_of doc))"

section \<open>Sample texts\<close>

definition scenario1 :: jsstring where
  \<comment> \<open>the section text of the first end-to-end scenario of the specification\<close>
  "scenario1 =
     [SECT] @ ascii '' 1.1 This section defines '' @ [LDQ] @ ascii ''widget'' @ [RDQ] @
     ascii '' as any device.''"

definition nested1 :: jsstring where
  \<comment> \<open>a quoted term inside a quoted term\<close>
  "nested1 = [LDQ] @ ascii ''a '' @ [LDQ] @ ascii ''b'' @ [RDQ] @ ascii '' c'' @ [RDQ]"

subsection \<open>Sample worlds\<close>

definition sample_doc :: xml_result where
  \<comment> \<open>what the parser returns for a document with one section labelled \<open>a\<close>\<close>
  "sample_doc =
     Some \<lparr>reg_title = None,
           reg_section = Some [\<lparr>sec_label = Some (ascii ''a''), sec_paragraph = None\<rparr>]\<rparr>"

definition blank_sections_doc :: xml_result where
  \<comment> \<open>a regulation of two sections that have neither label nor paragraph\<close>
  "blank_sections_doc =
     Some \<lparr>reg_title = None,
           reg_section = Some [\<lparr>sec_label = None, sec_paragraph = None\<rparr>,
                               \<lparr>sec_label = None, sec_paragraph = None\<rparr>]\<rparr>"

definition sample_index :: titles_json where
  "sample_index =
     \<lparr>titles = [\<lparr>number = 1, up_to_date_as_of = 19000\<rparr>, \<lparr>number = 2, up_to_date_as_of = 19000\<rparr>,
                \<lparr>number = 3, up_to_date_as_of = 19000\<rparr>],
      import_in_progress = False\<rparr>"

definition sample_world :: world where
  \<comment> \<open>three titles, every request answered\<close>
  "sample_world =
     \<lparr>titles_index = Inr sample_index, titles_for = (\<lambda>t. Inr sample_index),
      full_xml = (\<lambda>d t. Inr (ascii ''<regulation/>'')), parse_xml = (\<lambda>xml. Inr sample_doc),
      connect_fails = False, store_fails = (\<lambda>doc. False)\<rparr>"

definition refusing_world :: world where
  \<comment> \<open>as \<open>sample_world\<close>, but the store refuses the document of title 2\<close>
  "refusing_world = sample_world\<lparr>store_fails := (\<lambda>doc. agency doc = title_name 2)\<rparr>"

definition sample_info :: "nat \<Rightarrow> title_info" where
  "sample_info t =
     \<lparr>info_agency = title_name t, info_title = title_name t, info_versionDate = 19000,
      info_content = ascii ''a''\<rparr>"

definition sample_snapshot :: "nat \<Rightarrow> regulation" where
  "sample_snapshot t =
     \<lparr>agency = title_name t, title = title_name t, versionDate = 19000, wordCount = 1,
      checksum = computeChecksum (ascii ''a''), refDensity = Fin 0, defFreq = Fin 0\<rparr>"

definition sample_store :: db where
  "sample_store = [(1, sample_snapshot 1), (2, sample_snapshot 2), (3, sample_snapshot 3)]"

definition sample_out :: "console_line list" where
  "sample_out =
     [Ingested (title_name 1) (title_name 1) 19000 (Fin 0) (Fin 0),
      Ingested (title_name 2) (title_name 2) 19000 (Fin 0) (Fin 0),
      Ingested (title_name 3) (title_name 3) 19000 (Fin 0) (Fin 0), Done_disconnected]"

definition one_title_index :: titles_json where
  "one_title_index =
     \<lparr>titles = [\<lparr>number = 1, up_to_date_as_of = 19000\<rparr>], import_in_progress = False\<rparr>"

definition labelled_doc :: xml_result where
  \<comment> \<open>a regulation whose one section has the label \<^verbatim>\<open><a/>\<close> and no paragraph\<close>
  "labelled_doc =
     Some \<lparr>reg_title = None,
           reg_section = Some [\<lparr>sec_label = Some (ascii ''<a/>''), sec_paragraph = None\<rparr>]\<rparr>"

definition fallback_world :: world where
  \<comment> \<open>the document is \<^verbatim>\<open><a/>\<close>: it parses, and has no \<^verbatim>\<open>regulation\<close> element\<close>
  "fallback_world =
     \<lparr>titles_index = Inr one_title_index, titles_for = (\<lambda>t. Inr one_title_index),
      full_xml = (\<lambda>d t. Inr (ascii ''<a/>'')), parse_xml = (\<lambda>xml. Inr None),
      connect_fails = False, store_fails = (\<lambda>doc. False)\<rparr>"

definition sectioned_world :: world where
  "sectioned_world =
     \<lparr>titles_index = Inr one_title_index, titles_for = (\<lambda>t. Inr one_title_index),
      full_xml = (\<lambda>d t. Inr (ascii ''<regulation><section label='' @ [0x22] @
         ascii ''&lt;a/&gt;'' @ [0x22] @ ascii ''/></regulation>'')),
      parse_xml = (\<lambda>xml. Inr labelled_doc),
      connect_fails = False, store_fails = (\<lambda>doc. False)\<rparr>"

definition two_snapshots :: db where
  \<comment> \<open>the later date was written first\<close>
  "two_snapshots =
     [(1, (sample_snapshot 1)\<lparr>versionDate := 19001, wordCount := 5\<rparr>),
      (2, (sample_snapshot 1)\<lparr>versionDate := 19000, wordCount := 7\<rparr>)]"

definition three_snapshots :: db where
  \<comment> \<open>of the three snapshots of title 1 the one written second has the latest date\<close>
  "three_snapshots =
     [(1, (sample_snapshot 1)\<lparr>versionDate := 19000, wordCount := 7\<rparr>),
      (2, (sample_snapshot 2)\<lparr>versionDate := 19005, wordCount := 3\<rparr>),
      (3, (sample_snapshot 1)\<lparr>versionDate := 19002, wordCount := 5\<rparr>),
      (4, (sample_snapshot 1)\<lparr>versionDate := 19001, wordCount := 9\<rparr>)]"

section \<open>The notions the claims are stated in\<close>

subsection \<open>Words\<close>

text \<open>
  A token starts at every character that is not white space and whose predecessor, if
  there is one, is white space. \<open>token_starts prev s\<close> counts these positions in \<open>s\<close>,
  \<open>prev\<close> telling whether the character before \<open>s\<close> counts as white space.
\<close>

fun token_starts :: "bool \<Rightarrow> jsstring \<Rightarrow> nat" where
  "token_starts prev [] = 0"
| "token_starts prev (c # cs) =
     (if \<not> is_space c \<and> prev then 1 else 0) + token_starts (is_space c) cs"

subsection \<open>References\<close>

text \<open>
  A reference is a section mark, optional white space, and one or more non-empty groups
  of digits separated by periods.
\<close>

definition digit_group :: "jsstring \<Rightarrow> bool" where
  "digit_group g \<longleftrightarrow> g \<noteq> [] \<and> (\<forall>c \<in> set g. is_digit c)"

definition is_reference :: "jsstring \<Rightarrow> bool" where
  "is_reference w \<longleftrightarrow>
     (\<exists>ws gs. w = SECT # ws @ join [DOT] gs \<and> (\<forall>c \<in> set ws. is_space c) \<and> gs \<noteq> [] \<and>
        (\<forall>g \<in> set gs. g \<noteq> [] \<and> (\<forall>c \<in> set g. is_digit c)))"

text \<open>
  \<open>ref_at t\<close>: a reference starts at the head of \<open>t\<close> (a section mark, then after any
  white space a digit). \<open>ref_starts s\<close> counts the positions of \<open>s\<close> where one starts.
\<close>

definition ref_at :: "jsstring \<Rightarrow> bool" where
  "ref_at t \<longleftrightarrow>
     (case t of
        [] \<Rightarrow> False
      | c # cs \<Rightarrow> c = SECT \<and> (case dropWhile is_space cs of [] \<Rightarrow> False | d # _ \<Rightarrow> is_digit d))"

fun ref_starts :: "jsstring \<Rightarrow> nat" where
  "ref_starts [] = 0"
| "ref_starts (c # cs) = (if ref_at (c # cs) then 1 else 0) + ref_starts cs"

subsection \<open>Quoted terms\<close>

text \<open>
  A quoted span is a left quote, a non-empty run of characters other than the right quote,
  and the right quote that follows. \<open>quoted_spans\<close> collects them from the left; after a
  span the scan goes on behind its closing quote, so spans never overlap.
\<close>

definition quote_body :: "jsstring \<Rightarrow> jsstring" where
  "quote_body cs = takeWhile (\<lambda>x. x \<noteq> RDQ) cs"

definition quoted_at :: "jsstring \<Rightarrow> bool" where
  "quoted_at t \<longleftrightarrow>
     (case t of [] \<Rightarrow> False | c # cs \<Rightarrow> c = LDQ \<and> quote_body cs \<noteq> [] \<and> RDQ \<in> set cs)"

function quoted_spans :: "jsstring \<Rightarrow> jsstring list" where
  "quoted_spans [] = []"
| "quoted_spans (c # cs) =
     (if quoted_at (c # cs)
      then (LDQ # quote_body cs @ [RDQ]) # quoted_spans (drop (Suc (length (quote_body cs))) cs)
      else quoted_spans cs)"
  by pat_completeness auto
termination
  by (relation "measure length") auto

subsection \<open>Runs\<close>

text \<open>The snapshots of the titles of \<open>ts\<close> that \<^verbatim>\<open>fetchTitle\<close> returns something for.\<close>

definition new_docs :: "world \<Rightarrow> nat list \<Rightarrow> regulation list" where
  "new_docs w ts = map snapshot_of (List.map_filter (\<lambda>t. fst (fetchTitle w t)) ts)"

subsection \<open>Agency names\<close>

text \<open>The number a name is sorted by: the one its first run of digits spells.\<close>

definition has_digit :: "jsstring \<Rightarrow> bool" where
  "has_digit a \<longleftrightarrow> (\<exists>c \<in> set a. is_digit c)"

definition first_digits :: "jsstring \<Rightarrow> jsstring" where
  "first_digits a = takeWhile is_digit (dropWhile (\<lambda>c. \<not> is_digit c) a)"

definition agency_key :: "jsstring \<Rightarrow> nat" where
  "agency_key a = parseInt10 (first_digits a)"

section \<open>The first match of each pattern\<close>

text \<open>
  What a greedy character-class loop leaves: first everything it can consume, then one
  character less each time it is asked to back off.
\<close>

fun backoffs :: "(jschar \<Rightarrow> bool) \<Rightarrow> jsstring \<Rightarrow> jsstring list" where
  "backoffs P [] = [[]]"
| "backoffs P (c # cs) = (if P c then backoffs P cs @ [c # cs] else [c # cs])"

definition GROUP :: regex where
  "GROUP = Seq (Atom (Lit DOT)) (OneOrMore (Atom Digit))"

definition TAIL :: regex where
  "TAIL = Seq (OneOrMore (Atom Digit)) (Star GROUP)"

function skip_groups :: "jsstring \<Rightarrow> jsstring" where
  "skip_groups (c # d # ds) =
     (if c = DOT \<and> is_digit d then skip_groups (dropWhile is_digit ds) else c # d # ds)"
| "skip_groups [c] = [c]"
| "skip_groups [] = []"
  by pat_completeness auto
termination
  by (relation "measure length") (auto simp: le_imp_less_Suc length_dropWhile_le less_SucI)

definition tail_rest :: "jsstring \<Rightarrow> jsstring option" where
  "tail_rest u =
     (case u of
        [] \<Rightarrow> None
      | d # ds \<Rightarrow> if is_digit d then Some (skip_groups (dropWhile is_digit ds)) else None)"

definition ref_rest :: "jsstring \<Rightarrow> jsstring option" where
  "ref_rest t =
     (case t of
        [] \<Rightarrow> None
      | c # cs \<Rightarrow> if c = SECT then tail_rest (dropWhile is_space cs) else None)"

section \<open>Properties of the pattern matcher\<close>

lemma star_atom:
  "length s \<le> n \<Longrightarrow> star_ends (ends (Atom a)) n s = backoffs (accepts a) s"
proof (induction n arbitrary: s)
  case 0
  then show ?case by simp
next
  case (Suc n)
  show ?case
  proof (cases s)
    case Nil
    then show ?thesis by simp
  next
    case (Cons c cs)
    with Suc.prems have "length cs \<le> n" by simp
    with Suc.IH have "star_ends (ends (Atom a)) n cs = backoffs (accepts a) cs" .
    with Cons show ?thesis by simp
  qed
qed

lemma ends_star_atom: "ends (Star (Atom a)) s = backoffs (accepts a) s"
  by (simp add: star_atom)

lemma ends_plus_atom:
  "ends (OneOrMore (Atom a)) s =
     (case s of [] \<Rightarrow> [] | c # cs \<Rightarrow> if accepts a c then backoffs (accepts a) cs else [])"
  by (cases s) (simp_all add: OneOrMore_def star_atom)

lemma backoffs_shape:
  "\<exists>ts. backoffs P s = dropWhile P s # ts \<and> (\<forall>t \<in> set ts. t \<noteq> [] \<and> P (hd t))"
  by (induction s) auto

lemma backoffs_length: "t \<in> set (backoffs P s) \<Longrightarrow> length t \<le> length s"
  by (induction s) (auto split: if_splits)

lemma star_ends_last: "\<exists>ts. star_ends f n s = ts @ [s]"
  by (cases n) simp_all

lemma accepts_Space: "accepts Space = is_space"
  by (rule ext) simp

lemma split_from_ws:
  "split_from WS_RE piece (c # cs) =
     (if is_space c then piece # split_from WS_RE [] (dropWhile is_space cs)
      else split_from WS_RE (piece @ [c]) cs)"
proof -
  obtain ts where ts: "backoffs (accepts Space) cs = dropWhile is_space cs # ts"
    using backoffs_shape [of "accepts Space" cs] by (auto simp: accepts_Space)
  have len: "length (dropWhile is_space cs) < Suc (length cs)"
    using length_dropWhile_le [of is_space cs] by simp
  show ?thesis
    by (simp add: WS_RE_def ends_plus_atom ts len)
qed

lemma token_starts_dropWhile:
  "token_starts True (dropWhile is_space s) = token_starts True s"
  by (induction s) simp_all

lemma token_starts_trailing:
  "\<forall>c \<in> set ys. is_space c \<Longrightarrow> token_starts p (xs @ ys) = token_starts p xs"
proof (induction xs arbitrary: p)
  case Nil
  then show ?case by (induction ys arbitrary: p) simp_all
next
  case (Cons x xs)
  then show ?case by simp
qed

lemma count_split_from:
  "length (filter (\<lambda>w. w \<noteq> []) (split_from WS_RE piece s)) =
     (if piece = [] then token_starts True s else Suc (token_starts False s))"
proof (induction "length s" arbitrary: s piece rule: less_induct)
  case less
  show ?case
  proof (cases s)
    case Nil
    then show ?thesis by simp
  next
    case (Cons c cs)
    have len: "length (dropWhile is_space cs) < length s"
      using length_dropWhile_le [of is_space cs] Cons by simp
    have lcs: "length cs < length s" using Cons by simp
    show ?thesis
    proof (cases "is_space c")
      case True
      then show ?thesis
        using less [OF len, of "[]"] Cons
        by (simp add: split_from_ws token_starts_dropWhile del: split_from.simps)
    next
      case False
      then show ?thesis
        using less [OF lcs, of "piece @ [c]"] Cons
        by (simp add: split_from_ws del: split_from.simps)
    qed
  qed
qed

lemma trim_decomp: "\<exists>ys. dropWhile is_space s = trim s @ ys \<and> (\<forall>c \<in> set ys. is_space c)"
proof -
  let ?t = "dropWhile is_space s"
  have "?t = rev (rev ?t)" by simp
  also have "rev ?t = takeWhile is_space (rev ?t) @ dropWhile is_space (rev ?t)" by simp
  finally have "?t = trim s @ rev (takeWhile is_space (rev ?t))"
    unfolding trim_def by (metis rev_append rev_rev_ident)
  moreover have "\<forall>c \<in> set (rev (takeWhile is_space (rev ?t))). is_space c"
    by (auto dest: set_takeWhileD)
  ultimately show ?thesis by blast
qed

lemma token_starts_trim: "token_starts True (trim s) = token_starts True s"
proof -
  obtain ys where ys: "dropWhile is_space s = trim s @ ys" "\<forall>c \<in> set ys. is_space c"
    using trim_decomp by blast
  have "token_starts True s = token_starts True (trim s @ ys)"
    using token_starts_dropWhile [of s] ys(1) by simp
  then show ?thesis using token_starts_trailing [OF ys(2)] by simp
qed

lemma countWords_token_starts: "countWords s = token_starts True s"
proof (cases "trim s = []")
  case True
  have "token_starts True (trim s) = 0" using True by simp
  then have "token_starts True s = 0" by (simp add: token_starts_trim)
  then show ?thesis using True by (simp add: countWords_def split_def WS_RE_def ends_plus_atom)
next
  case False
  then show ?thesis
    using count_split_from [of "[]" "trim s"]
    by (simp add: countWords_def split_def token_starts_trim)
qed

lemma token_starts_index:
  "token_starts p s =
     length (filter (\<lambda>i. \<not> is_space (s ! i) \<and> (if i = 0 then p else is_space (s ! (i - 1))))
       [0..<length s])"
proof (induction s arbitrary: p)
  case Nil
  then show ?case by simp
next
  case (Cons c cs)
  have "[0..<length (c # cs)] = 0 # map Suc [0..<length cs]"
    by (simp add: upt_conv_Cons map_Suc_upt del: upt_Suc)
  moreover have "filter ((\<lambda>i. \<not> is_space ((c # cs) ! i) \<and> (if i = 0 then p else is_space ((c # cs) ! (i - 1)))) \<circ> Suc) [0..<length cs]
     = filter (\<lambda>i. \<not> is_space (cs ! i) \<and> (if i = 0 then is_space c else is_space (cs ! (i - 1)))) [0..<length cs]"
    by (rule filter_cong) (auto simp: nth_Cons split: nat.splits)
  ultimately show ?case
    using Cons [of "is_space c"] by (simp add: filter_map del: upt_Suc)
qed

lemma accepts_Digit: "accepts Digit = is_digit"
  by (rule ext) simp

lemma ends_GROUP_Cons2:
  "ends GROUP (c # d # ds) = (if c = DOT \<and> is_digit d then backoffs is_digit ds else [])"
  by (simp add: GROUP_def ends_plus_atom accepts_Digit)

lemma ends_GROUP_short: "ends GROUP [c] = []" "ends GROUP [] = []"
  by (simp_all add: GROUP_def ends_plus_atom)

lemma skip_groups_length: "length (skip_groups t) \<le> length t"
proof (induction t rule: skip_groups.induct)
  case (1 c d ds)
  then show ?case
    using length_dropWhile_le [of is_digit ds] by (auto simp del: skip_groups.simps simp add: skip_groups.simps(1) [of c d ds])
qed simp_all

lemma star_GROUP:
  "length t \<le> n \<Longrightarrow> \<exists>ts. star_ends (ends GROUP) n t = skip_groups t # ts"
proof (induction n arbitrary: t)
  case 0
  then show ?case by simp
next
  case (Suc n)
  show ?case
  proof (cases "\<exists>d ds. t = DOT # d # ds \<and> is_digit d")
    case True
    then obtain d ds where t: "t = DOT # d # ds" and d: "is_digit d" by blast
    obtain us where us: "backoffs is_digit ds = dropWhile is_digit ds # us"
      using backoffs_shape by blast
    have l: "length (dropWhile is_digit ds) \<le> n"
      using Suc.prems t length_dropWhile_le [of is_digit ds] by simp
    from Suc.IH [OF l] obtain vs where
      vs: "star_ends (ends GROUP) n (dropWhile is_digit ds) = skip_groups (dropWhile is_digit ds) # vs"
      by blast
    have l2: "length (dropWhile is_digit ds) < Suc (Suc (length ds))"
      using length_dropWhile_le [of is_digit ds] by simp
    show ?thesis
      using t d by (simp add: ends_GROUP_Cons2 us vs l2)
  next
    case False
    then have e: "ends GROUP t = []"
      by (cases t rule: skip_groups.cases) (auto simp: ends_GROUP_Cons2 ends_GROUP_short)
    have "skip_groups t = t"
      using False by (cases t rule: skip_groups.cases) auto
    then show ?thesis by (simp add: e)
  qed
qed

lemma ends_TAIL_none:
  "(case u of [] \<Rightarrow> True | d # _ \<Rightarrow> \<not> is_digit d) \<Longrightarrow> ends TAIL u = []"
  by (cases u) (simp_all add: TAIL_def ends_plus_atom)

lemma ends_TAIL_some:
  "is_digit d \<Longrightarrow> \<exists>ts. ends TAIL (d # ds) = skip_groups (dropWhile is_digit ds) # ts"
proof -
  assume d: "is_digit d"
  obtain us where us: "backoffs is_digit ds = dropWhile is_digit ds # us"
    using backoffs_shape by blast
  obtain vs where vs: "star_ends (ends GROUP) (length (dropWhile is_digit ds)) (dropWhile is_digit ds)
      = skip_groups (dropWhile is_digit ds) # vs"
    using star_GROUP [of "dropWhile is_digit ds" "length (dropWhile is_digit ds)"] by blast
  show ?thesis using d by (simp add: TAIL_def ends_plus_atom accepts_Digit us vs)
qed

lemma space_not_digit: "is_space c \<Longrightarrow> \<not> is_digit c"
  by (auto simp: is_space_def is_digit_def)

lemma concat_map_nil: "\<forall>x \<in> set xs. f x = [] \<Longrightarrow> concat (map f xs) = []"
  by (induction xs) simp_all

lemma REF_RE_TAIL: "REF_RE = Seq (Atom (Lit SECT)) (Seq (Star (Atom Space)) TAIL)"
  by (simp add: REF_RE_def TAIL_def GROUP_def)

lemma ends_REF_RE:
  "ends REF_RE (c # cs) = (if c = SECT then ends TAIL (dropWhile is_space cs) else [])"
proof -
  obtain us where us: "backoffs is_space cs = dropWhile is_space cs # us"
    and rest: "\<forall>t \<in> set us. t \<noteq> [] \<and> is_space (hd t)"
    using backoffs_shape by blast
  have "\<forall>t \<in> set us. ends TAIL t = []"
  proof
    fix t assume "t \<in> set us"
    with rest have "t \<noteq> []" "is_space (hd t)" by auto
    then show "ends TAIL t = []"
      by (intro ends_TAIL_none) (auto split: list.splits dest: space_not_digit)
  qed
  then have nil: "concat (map (ends TAIL) us) = []" by (rule concat_map_nil)
  have inner: "ends (Seq (Star (Atom Space)) TAIL) cs = ends TAIL (dropWhile is_space cs)"
    by (simp add: ends_star_atom accepts_Space us nil del: ends.simps(4))
  show ?thesis
    unfolding REF_RE_TAIL
    by (simp add: ends.simps(3) [of "Atom (Lit SECT)"] inner del: ends.simps(3,4))
qed

lemma ends_TAIL_rest:
  "(tail_rest u = None \<longrightarrow> ends TAIL u = []) \<and>
   (\<forall>e. tail_rest u = Some e \<longrightarrow> (\<exists>ts. ends TAIL u = e # ts))"
proof (cases u)
  case Nil
  then show ?thesis by (simp add: tail_rest_def ends_TAIL_none)
next
  case (Cons d ds)
  then show ?thesis
    using ends_TAIL_some [of d ds] ends_TAIL_none [of "d # ds"]
    by (auto simp: tail_rest_def)
qed

lemma ends_REF_RE_rest:
  "(ref_rest t = None \<longrightarrow> ends REF_RE t = []) \<and>
   (\<forall>e. ref_rest t = Some e \<longrightarrow> (\<exists>ts. ends REF_RE t = e # ts))"
proof (cases t)
  case Nil
  then show ?thesis by (simp add: ref_rest_def REF_RE_def)
next
  case (Cons c cs)
  then show ?thesis
    using ends_TAIL_rest [of "dropWhile is_space cs"]
    by (simp add: ref_rest_def ends_REF_RE)
qed

lemma join_dot: "join [DOT] (g # gs) = g @ concat (map (\<lambda>h. DOT # h) gs)"
  by (induction gs arbitrary: g) simp_all

lemma skip_groups_consumed:
  "\<exists>gs. u = concat (map (\<lambda>h. DOT # h) gs) @ skip_groups u \<and> (\<forall>g \<in> set gs. digit_group g)"
proof (induction u rule: skip_groups.induct)
  case (1 c d ds)
  show ?case
  proof (cases "c = DOT \<and> is_digit d")
    case True
    with 1 obtain gs where
      gs: "dropWhile is_digit ds = concat (map (\<lambda>h. DOT # h) gs) @ skip_groups (dropWhile is_digit ds)"
        "\<forall>g \<in> set gs. digit_group g"
      by blast
    let ?g = "d # takeWhile is_digit ds"
    have g: "digit_group ?g"
      using True by (auto simp: digit_group_def dest: set_takeWhileD)
    have "c # d # ds = DOT # ?g @ dropWhile is_digit ds"
      using True by simp
    also have "\<dots> = concat (map (\<lambda>h. DOT # h) (?g # gs)) @ skip_groups (dropWhile is_digit ds)"
      using gs(1) by simp
    finally have "c # d # ds = concat (map (\<lambda>h. DOT # h) (?g # gs)) @ skip_groups (c # d # ds)"
      using True by simp
    moreover have "\<forall>h \<in> set (?g # gs). digit_group h"
      using g gs(2) by simp
    ultimately show ?thesis by blast
  next
    case False
    then have "c # d # ds = concat (map (\<lambda>h. DOT # h) []) @ skip_groups (c # d # ds)"
      by auto
    then show ?thesis by (metis empty_iff list.set(1))
  qed
next
  case (2 c)
  have "[c] = concat (map (\<lambda>h. DOT # h) []) @ skip_groups [c]" by simp
  then show ?case by (metis empty_iff list.set(1))
next
  case 3
  have "[] = concat (map (\<lambda>h. DOT # h) []) @ skip_groups []" by simp
  then show ?case by (metis empty_iff list.set(1))
qed

lemma ref_rest_consumed:
  assumes "ref_rest t = Some e"
  shows "\<exists>w. t = w @ e \<and> is_reference w"
proof -
  from assms obtain cs where t: "t = SECT # cs"
    and tr: "tail_rest (dropWhile is_space cs) = Some e"
    by (auto simp: ref_rest_def split: list.splits if_splits)
  from tr obtain d ds where u: "dropWhile is_space cs = d # ds" and d: "is_digit d"
    and e: "e = skip_groups (dropWhile is_digit ds)"
    by (auto simp: tail_rest_def split: list.splits if_splits)
  obtain gs where gs: "dropWhile is_digit ds = concat (map (\<lambda>h. DOT # h) gs) @ e"
    "\<forall>g \<in> set gs. digit_group g"
    using skip_groups_consumed [of "dropWhile is_digit ds"] e by blast
  let ?ws = "takeWhile is_space cs"
  let ?g = "d # takeWhile is_digit ds"
  have "cs = ?ws @ dropWhile is_space cs" by simp
  also have "\<dots> = ?ws @ d # takeWhile is_digit ds @ dropWhile is_digit ds"
    using u by simp
  also have "\<dots> = (?ws @ join [DOT] (?g # gs)) @ e"
    using gs(1) by (simp add: join_dot)
  finally have "t = (SECT # ?ws @ join [DOT] (?g # gs)) @ e"
    using t by simp
  moreover have "is_reference (SECT # ?ws @ join [DOT] (?g # gs))"
    unfolding is_reference_def
  proof (intro exI conjI)
    show "SECT # ?ws @ join [DOT] (?g # gs) = SECT # ?ws @ join [DOT] (?g # gs)" ..
    show "\<forall>c \<in> set ?ws. is_space c" by (auto dest: set_takeWhileD)
    show "?g # gs \<noteq> []" by simp
    show "\<forall>g \<in> set (?g # gs). g \<noteq> [] \<and> (\<forall>c \<in> set g. is_digit c)"
      using d gs(2) by (auto simp: digit_group_def dest: set_takeWhileD)
  qed
  ultimately show ?thesis by blast
qed

lemma is_reference_nonempty: "is_reference w \<Longrightarrow> w \<noteq> []"
  by (auto simp: is_reference_def)

lemma sect_not_space: "\<not> is_space SECT"
  by (simp add: is_space_def SECT_def)

lemma sect_not_digit: "\<not> is_digit SECT"
  by (simp add: is_digit_def SECT_def)

lemma sect_not_dot: "SECT \<noteq> DOT"
  by (simp add: SECT_def DOT_def)

lemma join_dot_no_sect:
  assumes "\<forall>g \<in> set gs. g \<noteq> [] \<and> (\<forall>c \<in> set g. is_digit c)"
  shows "SECT \<notin> set (join [DOT] gs)"
proof (cases gs)
  case Nil
  then show ?thesis by simp
next
  case (Cons g hs)
  have "\<forall>h \<in> set gs. SECT \<notin> set h"
    using assms sect_not_digit by blast
  then show ?thesis
    using Cons sect_not_dot by (auto simp: join_dot)
qed

lemma is_reference_tail_no_sect: "is_reference w \<Longrightarrow> \<exists>v. w = SECT # v \<and> SECT \<notin> set v"
proof -
  assume "is_reference w"
  then obtain ws gs where w: "w = SECT # ws @ join [DOT] gs"
    and ws: "\<forall>c \<in> set ws. is_space c"
    and gs: "\<forall>g \<in> set gs. g \<noteq> [] \<and> (\<forall>c \<in> set g. is_digit c)"
    by (auto simp: is_reference_def)
  have "SECT \<notin> set ws" using ws sect_not_space by auto
  moreover have "SECT \<notin> set (join [DOT] gs)" using gs by (rule join_dot_no_sect)
  ultimately show ?thesis using w by auto
qed

lemma tail_at: "(case u of [] \<Rightarrow> False | d # x \<Rightarrow> is_digit d) \<longleftrightarrow> tail_rest u \<noteq> None"
  by (cases u) (simp_all add: tail_rest_def)

lemma ref_at_rest: "ref_at t \<longleftrightarrow> ref_rest t \<noteq> None"
  by (cases t) (simp_all add: ref_at_def ref_rest_def tail_at)

lemma ref_starts_skip: "SECT \<notin> set xs \<Longrightarrow> ref_starts (xs @ e) = ref_starts e"
  by (induction xs) (auto simp: ref_at_def)

lemma match_all_REF_RE_Cons:
  "match_all REF_RE (c # cs) =
     (case ref_rest (c # cs) of
        None \<Rightarrow> match_all REF_RE cs
      | Some e \<Rightarrow> take (Suc (length cs) - length e) (c # cs) # match_all REF_RE e)"
proof (cases "ref_rest (c # cs)")
  case None
  then have "ends REF_RE (c # cs) = []" using ends_REF_RE_rest by blast
  then show ?thesis using None by simp
next
  case (Some e)
  then obtain ts where ts: "ends REF_RE (c # cs) = e # ts" using ends_REF_RE_rest by blast
  from Some obtain w where w: "c # cs = w @ e" "is_reference w"
    using ref_rest_consumed by blast
  then have "length e < Suc (length cs)"
    using is_reference_nonempty [of w]
    by (metis length_Cons length_append length_greater_0_conv less_add_same_cancel2 add.commute)
  then show ?thesis using Some ts by simp
qed

lemma ends_REF_RE_Nil: "ends REF_RE [] = []"
  by (simp add: REF_RE_def)

lemma match_all_REF_RE_Nil: "match_all REF_RE [] = []"
  by (simp add: ends_REF_RE_Nil)

lemma match_all_REF_RE_count: "length (match_all REF_RE s) = ref_starts s"
proof (induction "length s" arbitrary: s rule: less_induct)
  case less
  show ?case
  proof (cases s)
    case Nil
    then show ?thesis by (simp add: ends_REF_RE_Nil)
  next
    case (Cons c cs)
    show ?thesis
    proof (cases "ref_rest (c # cs)")
      case None
      then have "\<not> ref_at (c # cs)" by (simp add: ref_at_rest)
      then show ?thesis
        using less [of cs] Cons None by (simp add: match_all_REF_RE_Cons del: match_all.simps)
    next
      case (Some e)
      then obtain w where w: "c # cs = w @ e" "is_reference w"
        using ref_rest_consumed by blast
      then obtain v where v: "w = SECT # v" "SECT \<notin> set v"
        using is_reference_tail_no_sect by blast
      have cs: "cs = v @ e" using w(1) v(1) by simp
      have "length e < length s" using Cons cs by simp
      then have "length (match_all REF_RE e) = ref_starts e" by (rule less)
      moreover have "ref_starts cs = ref_starts e"
        using cs ref_starts_skip [OF v(2)] by simp
      moreover have "ref_at (c # cs)" using Some by (simp add: ref_at_rest)
      ultimately show ?thesis
        using Cons Some by (simp add: match_all_REF_RE_Cons del: match_all.simps)
    qed
  qed
qed

lemma match_all_REF_RE_shape: "m \<in> set (match_all REF_RE s) \<Longrightarrow> is_reference m"
proof (induction "length s" arbitrary: s rule: less_induct)
  case less
  show ?case
  proof (cases s)
    case Nil
    with less.prems show ?thesis by (simp add: ends_REF_RE_Nil)
  next
    case (Cons c cs)
    show ?thesis
    proof (cases "ref_rest (c # cs)")
      case None
      then show ?thesis
        using less.hyps [of cs] less.prems Cons
        by (simp add: match_all_REF_RE_Cons del: match_all.simps)
    next
      case (Some e)
      then obtain w where w: "c # cs = w @ e" "is_reference w"
        using ref_rest_consumed by blast
      have ne: "w \<noteq> []" using w(2) by (rule is_reference_nonempty)
      have tk: "take (Suc (length cs) - length e) (c # cs) = w"
      proof -
        have "Suc (length cs) = length w + length e"
          using w(1) by (metis length_Cons length_append)
        then show ?thesis using w(1) by simp
      qed
      have "length e < length s" using Cons w(1) ne
        by (metis length_append length_greater_0_conv less_add_same_cancel2 add.commute)
      then have "m \<in> set (match_all REF_RE e) \<Longrightarrow> is_reference m" by (rule less.hyps)
      then show ?thesis
        using less.prems Cons Some w(2) tk
        by (auto simp add: match_all_REF_RE_Cons simp del: match_all.simps)
    qed
  qed
qed

lemma ref_at_iff: "ref_at t \<longleftrightarrow> (\<exists>w e. t = w @ e \<and> is_reference w)"
proof
  assume "ref_at t"
  then obtain e where "ref_rest t = Some e" by (auto simp: ref_at_rest)
  then show "\<exists>w e. t = w @ e \<and> is_reference w" using ref_rest_consumed by blast
next
  assume "\<exists>w e. t = w @ e \<and> is_reference w"
  then obtain ws gs e where t: "t = (SECT # ws @ join [DOT] gs) @ e"
    and ws: "\<forall>c \<in> set ws. is_space c" and ne: "gs \<noteq> []"
    and gs: "\<forall>g \<in> set gs. g \<noteq> [] \<and> (\<forall>c \<in> set g. is_digit c)"
    by (auto simp: is_reference_def)
  from ne obtain g hs where g: "gs = g # hs" by (cases gs) auto
  with gs obtain d ds where d: "g = d # ds" "is_digit d" by (cases g) auto
  have nd: "\<not> is_space d" using d(2) space_not_digit by blast
  have "dropWhile is_space (ws @ join [DOT] gs @ e) = join [DOT] gs @ e"
    using ws g d nd by (simp add: join_dot dropWhile_append3)
  then show "ref_at t"
    using t g d by (simp add: ref_at_def join_dot)
qed

lemma accepts_NotLit: "accepts (NotLit a) = (\<lambda>x. x \<noteq> a)"
  by (rule ext) simp

lemma dropWhile_drop: "dropWhile P xs = drop (length (takeWhile P xs)) xs"
  by (induction xs) simp_all

lemma ends_close:
  "concat (map (ends (Atom (Lit RDQ))) (backoffs (\<lambda>x. x \<noteq> RDQ) cs)) =
     (if RDQ \<in> set cs then [drop (Suc (length (quote_body cs))) cs] else [])"
proof -
  obtain us where us: "backoffs (\<lambda>x. x \<noteq> RDQ) cs = dropWhile (\<lambda>x. x \<noteq> RDQ) cs # us"
    and rest: "\<forall>t \<in> set us. t \<noteq> [] \<and> hd t \<noteq> RDQ"
    using backoffs_shape [of "\<lambda>x. x \<noteq> RDQ" cs] by blast
  have "\<forall>t \<in> set us. ends (Atom (Lit RDQ)) t = []"
  proof
    fix t assume "t \<in> set us"
    with rest show "ends (Atom (Lit RDQ)) t = []" by (cases t) auto
  qed
  then have nil: "concat (map (ends (Atom (Lit RDQ))) us) = []" by (rule concat_map_nil)
  show ?thesis
  proof (cases "RDQ \<in> set cs")
    case True
    then have "dropWhile (\<lambda>x. x \<noteq> RDQ) cs \<noteq> []" by auto
    then obtain r rs where r: "dropWhile (\<lambda>x. x \<noteq> RDQ) cs = r # rs"
      by (cases "dropWhile (\<lambda>x. x \<noteq> RDQ) cs") auto
    then have "r = RDQ" using hd_dropWhile [of "\<lambda>x. x \<noteq> RDQ" cs] by auto
    moreover have "rs = drop (Suc (length (quote_body cs))) cs"
      using r by (metis dropWhile_drop drop_Suc list.sel(3) quote_body_def tl_drop)
    ultimately show ?thesis using True r by (simp add: us nil)
  next
    case False
    then have e: "dropWhile (\<lambda>x. x \<noteq> RDQ) cs = []" by auto
    show ?thesis using False by (simp add: us nil e)
  qed
qed

lemma ends_DEF_RE_Nil: "ends DEF_RE [] = []"
  by (simp add: DEF_RE_def)

lemma ends_DEF_RE_Cons:
  "ends DEF_RE (c # cs) =
     (if quoted_at (c # cs) then [drop (Suc (length (quote_body cs))) cs] else [])"
proof (cases cs)
  case Nil
  then show ?thesis by (simp add: DEF_RE_def quoted_at_def quote_body_def ends_plus_atom)
next
  case (Cons b bs)
  have body: "quote_body (b # bs) = (if b \<noteq> RDQ then b # quote_body bs else [])"
    by (simp add: quote_body_def)
  have "ends (Seq (OneOrMore (Atom (NotLit RDQ))) (Atom (Lit RDQ))) (b # bs) =
      (if b \<noteq> RDQ \<and> RDQ \<in> set bs then [drop (Suc (length (quote_body bs))) bs] else [])"
  proof (cases "b = RDQ")
    case True
    then show ?thesis by (simp add: ends_plus_atom)
  next
    case False
    then have "ends (OneOrMore (Atom (NotLit RDQ))) (b # bs) = backoffs (\<lambda>x. x \<noteq> RDQ) bs"
      by (simp add: ends_plus_atom accepts_NotLit)
    then have "ends (Seq (OneOrMore (Atom (NotLit RDQ))) (Atom (Lit RDQ))) (b # bs) =
        concat (map (ends (Atom (Lit RDQ))) (backoffs (\<lambda>x. x \<noteq> RDQ) bs))"
      by (simp only: ends.simps(3))
    then show ?thesis using False by (simp only: ends_close) simp
  qed
  then show ?thesis
    using Cons
    by (auto simp add: DEF_RE_def ends.simps(3) [of "Atom (Lit LDQ)"] quoted_at_def body
        simp del: ends.simps(3,4))
qed

lemma match_all_DEF_RE: "match_all DEF_RE s = quoted_spans s"
proof (induction s rule: quoted_spans.induct)
  case 1
  then show ?case by (simp add: ends_DEF_RE_Nil)
next
  case (2 c cs)
  show ?case
  proof (cases "quoted_at (c # cs)")
    case True
    then have c: "c = LDQ" and r: "RDQ \<in> set cs" by (auto simp: quoted_at_def)
    let ?b = "quote_body cs"
    have cs: "cs = ?b @ RDQ # drop (Suc (length ?b)) cs"
    proof -
      have "dropWhile (\<lambda>x. x \<noteq> RDQ) cs \<noteq> []" using r by auto
      then obtain q qs where q: "dropWhile (\<lambda>x. x \<noteq> RDQ) cs = q # qs"
        by (cases "dropWhile (\<lambda>x. x \<noteq> RDQ) cs") auto
      then have "q = RDQ" using hd_dropWhile [of "\<lambda>x. x \<noteq> RDQ" cs] by auto
      moreover have "qs = drop (Suc (length ?b)) cs"
        using q by (metis dropWhile_drop drop_Suc list.sel(3) quote_body_def tl_drop)
      moreover have "cs = ?b @ dropWhile (\<lambda>x. x \<noteq> RDQ) cs"
        by (simp add: quote_body_def)
      ultimately show ?thesis using q by simp
    qed
    let ?e = "drop (Suc (length ?b)) cs"
    have len: "length cs = length ?b + Suc (length ?e)"
      using cs by (metis length_append length_Cons)
    have tk: "take (Suc (length cs) - length ?e) (c # cs) = LDQ # ?b @ [RDQ]"
    proof -
      have "Suc (length cs) - length ?e = Suc (Suc (length ?b))" using len by simp
      moreover have "take (Suc (length ?b)) cs = ?b @ [RDQ]"
        using cs by (metis append.assoc append_Cons append_Nil append_eq_conv_conj length_append_singleton)
      ultimately show ?thesis using c by simp
    qed
    have lt: "length ?e < Suc (length cs)" using len by simp
    show ?thesis
      using True 2(1) [OF True] tk lt
      by (simp add: ends_DEF_RE_Cons del: quoted_spans.simps add: quoted_spans.simps(2) [of c cs])
  next
    case False
    then show ?thesis
      using 2(2) [OF False] by (simp add: ends_DEF_RE_Cons)
  qed
qed

lemma quoted_spans_total: "sum_list (map length (quoted_spans s)) \<le> length s"
proof (induction s rule: quoted_spans.induct)
  case 1
  then show ?case by simp
next
  case (2 c cs)
  show ?case
  proof (cases "quoted_at (c # cs)")
    case True
    then have r: "RDQ \<in> set cs" by (auto simp: quoted_at_def)
    have "length (quote_body cs) < length cs"
    proof -
      have "dropWhile (\<lambda>x. x \<noteq> RDQ) cs \<noteq> []" using r by auto
      moreover have "length cs = length (quote_body cs) + length (dropWhile (\<lambda>x. x \<noteq> RDQ) cs)"
        unfolding quote_body_def by (metis length_append takeWhile_dropWhile_id)
      ultimately show ?thesis by (cases "dropWhile (\<lambda>x. x \<noteq> RDQ) cs") auto
    qed
    then show ?thesis
      using True 2(1) [OF True] by simp
  next
    case False
    then show ?thesis using 2(2) [OF False] by simp
  qed
qed

lemma or_empty_match: "or_empty (js_match r s) = match_all r s"
  by (cases "match_all r s") (simp_all add: or_empty_def js_match_def)

lemma token_starts_zero: "token_starts True s = 0 \<longleftrightarrow> (\<forall>c \<in> set s. is_space c)"
  by (induction s) auto

lemma ref_starts_no_sect: "SECT \<notin> set s \<Longrightarrow> ref_starts s = 0"
  using ref_starts_skip [of s "[]"] by simp

lemma quoted_spans_no_quote: "LDQ \<notin> set s \<Longrightarrow> quoted_spans s = []"
  by (induction s rule: quoted_spans.induct) (auto simp: quoted_at_def)

lemma ldq_not_space: "\<not> is_space LDQ"
  by (simp add: is_space_def LDQ_def)

lemma quoted_spans_shape:
  "m \<in> set (quoted_spans s) \<Longrightarrow>
     \<exists>body. m = LDQ # body @ [RDQ] \<and> body \<noteq> [] \<and> RDQ \<notin> set body"
proof (induction s rule: quoted_spans.induct)
  case 1
  then show ?case by simp
next
  case (2 c cs)
  show ?case
  proof (cases "quoted_at (c # cs)")
    case True
    have b: "quote_body cs \<noteq> []" "RDQ \<notin> set (quote_body cs)"
      using True by (auto simp: quoted_at_def quote_body_def dest: set_takeWhileD)
    from 2(3) True have "m = LDQ # quote_body cs @ [RDQ] \<or>
        m \<in> set (quoted_spans (drop (Suc (length (quote_body cs))) cs))"
      by simp
    then show ?thesis using b 2(1) [OF True] by blast
  next
    case False
    then show ?thesis using 2(2) [OF False] 2(3) by simp
  qed
qed

section \<open>Properties of the arithmetic\<close>

text \<open>
  The rounding moves a value of the normal range by at most one part in \<open>2 ^ 53\<close>.
\<close>

lemma bits_bounds: "0 < n \<Longrightarrow> 2 ^ (bits n - 1) \<le> n \<and> n < 2 ^ bits n"
proof (induction n rule: bits.induct)
  case (1 n)
  show ?case
  proof (cases "n div 2 = 0")
    case True
    then have "n = 1" using 1(2) by (cases n) auto
    then show ?thesis by (simp add: bits.simps)
  next
    case False
    then have h: "0 < n div 2" by simp
    have n0: "n \<noteq> 0" using 1(2) by simp
    have ih: "2 ^ (bits (n div 2) - 1) \<le> n div 2 \<and> n div 2 < 2 ^ bits (n div 2)"
      using 1(1) [OF n0 h] .
    have b: "bits n = Suc (bits (n div 2))" using n0 by (subst bits.simps) simp
    have p: "0 < bits (n div 2)" using h by (subst bits.simps) simp
    then have e: "(2::nat) ^ bits (n div 2) = 2 * 2 ^ (bits (n div 2) - 1)"
      by (cases "bits (n div 2)") simp_all
    have "2 ^ (bits n - 1) \<le> n" using ih e b by simp linarith
    moreover have "n < 2 ^ bits n" using ih b by simp linarith
    ultimately show ?thesis by simp
  qed
qed

lemma pow2_powi: "pow2 e = 2 powi e"
  by (simp add: pow2_def power_int_def power_inverse inverse_eq_divide power_one_over)

lemma pow2_pos: "0 < pow2 e"
  by (simp add: pow2_powi)

lemma pow2_add: "pow2 (a + b) = pow2 a * pow2 b"
  by (simp add: pow2_powi power_int_add)

lemma pow2_mono: "a \<le> b \<Longrightarrow> pow2 a \<le> pow2 b"
  by (simp add: pow2_powi power_int_increasing)

lemma pow2_nat: "pow2 (int k) = 2 ^ k"
  by (simp add: pow2_def)

lemma pow2_neg_nat: "pow2 (- int k) = 1 / 2 ^ k"
  by (simp add: pow2_powi power_int_minus_divide)

lemma floor_log2_bounds:
  assumes "0 < x"
  shows "pow2 (floor_log2 x) \<le> x \<and> x < pow2 (floor_log2 x + 1)"
proof (cases "1 \<le> x")
  case True
  define m where "m = nat \<lfloor>x\<rfloor>"
  have m: "0 < m" using True by (simp add: m_def)
  have fl: "floor_log2 x = int (bits m) - 1" using True by (simp add: floor_log2_def m_def)
  have bm: "2 ^ (bits m - 1) \<le> m" "m < 2 ^ bits m" using bits_bounds [OF m] by simp_all
  have bp: "0 < bits m" using m by (subst bits.simps) simp
  have lo: "of_nat m \<le> x" using True by (simp add: m_def of_nat_nat)
  have hi: "x < of_nat m + 1"
  proof -
    have "x < of_int \<lfloor>x\<rfloor> + 1" by linarith
    moreover have "(of_int \<lfloor>x\<rfloor> :: rat) = of_nat m" using True by (simp add: m_def)
    ultimately show ?thesis by simp
  qed
  have "int (bits m) - 1 = int (bits m - 1)" using bp by simp
  then have a: "pow2 (floor_log2 x) = 2 ^ (bits m - 1)" by (simp only: fl pow2_nat)
  have b: "pow2 (floor_log2 x + 1) = 2 ^ bits m" by (simp add: fl pow2_nat)
  have f1: "(2::rat) ^ (bits m - 1) \<le> of_nat m"
    using bm(1) by (metis of_nat_le_iff of_nat_numeral of_nat_power)
  have f2: "(of_nat m :: rat) + 1 \<le> 2 ^ bits m"
  proof -
    have "m + 1 \<le> 2 ^ bits m" using bm(2) by simp
    then have "(of_nat (m + 1) :: rat) \<le> of_nat (2 ^ bits m)" by (simp only: of_nat_le_iff)
    then show ?thesis by simp
  qed
  have "pow2 (floor_log2 x) \<le> x" unfolding a using f1 lo by linarith
  moreover have "x < pow2 (floor_log2 x + 1)" unfolding b using f2 hi by linarith
  ultimately show ?thesis by (rule conjI)
next
  case False
  define y where "y = 1 / x"
  have y1: "1 < y" using False assms by (simp add: y_def)
  define k where "k = nat (\<lceil>y\<rceil> - 1)"
  have cy: "2 \<le> \<lceil>y\<rceil>" using y1 by linarith
  have k: "0 < k" using cy by (simp add: k_def)
  have kc: "(of_nat k :: rat) = of_int \<lceil>y\<rceil> - 1" using cy by (simp add: k_def of_nat_nat)
  have lo: "of_nat k < y" using kc by linarith
  have hi: "y \<le> of_nat k + 1" using kc by linarith
  have fl: "floor_log2 x = - int (bits k)" using False by (simp add: floor_log2_def k_def y_def)
  have bk: "2 ^ (bits k - 1) \<le> k" "k < 2 ^ bits k" using bits_bounds [OF k] by simp_all
  have bp: "0 < bits k" using k by (subst bits.simps) simp
  have a: "pow2 (floor_log2 x) = 1 / 2 ^ bits k" by (simp only: fl pow2_neg_nat)
  have "- int (bits k) + 1 = - int (bits k - 1)" using bp by simp
  then have b: "pow2 (floor_log2 x + 1) = 1 / 2 ^ (bits k - 1)" by (simp only: fl pow2_neg_nat)
  have "(of_nat k :: rat) + 1 \<le> 2 ^ bits k"
  proof -
    have "k + 1 \<le> 2 ^ bits k" using bk(2) by simp
    then have "(of_nat (k + 1) :: rat) \<le> of_nat (2 ^ bits k)" by (simp only: of_nat_le_iff)
    then show ?thesis by simp
  qed
  then have "y \<le> 2 ^ bits k" using hi by linarith
  then have c: "1 / 2 ^ bits k \<le> x"
    using assms by (simp add: y_def field_simps)
  have "(2::rat) ^ (bits k - 1) \<le> of_nat k"
    using bk(1) by (metis of_nat_le_iff of_nat_numeral of_nat_power)
  then have "2 ^ (bits k - 1) < y" using lo by linarith
  then have d: "x < 1 / 2 ^ (bits k - 1)"
    using assms by (simp add: y_def field_simps)
  show ?thesis using a b c d by simp
qed

lemma round_even_close: "\<bar>of_int (round_even y) - y\<bar> \<le> 1 / 2"
proof -
  have "of_int \<lfloor>y\<rfloor> \<le> y" "y < of_int \<lfloor>y\<rfloor> + 1" by (linarith+)
  then show ?thesis by (auto simp: round_even_def Let_def)
qed

lemma round64_close:
  assumes lo: "pow2 (- 1022) \<le> x" and hi: "x < pow2 1023"
  shows "\<exists>y. round64 x = Fin y \<and> \<bar>y - x\<bar> \<le> x / 2 ^ 53"
proof -
  have x: "0 < x" using lo pow2_pos [of "- 1022"] by linarith
  define e where "e = floor_log2 x"
  have b: "pow2 e \<le> x" "x < pow2 (e + 1)" using floor_log2_bounds [OF x] by (simp_all add: e_def)
  have e: "- 1022 \<le> e"
  proof (rule ccontr)
    assume "\<not> - 1022 \<le> e"
    then have "e + 1 \<le> - 1022" by simp
    then have "pow2 (e + 1) \<le> pow2 (- 1022)" by (rule pow2_mono)
    then show False using lo b(2) by linarith
  qed
  define q where "q = pow2 (e - 52)"
  have q: "0 < q" by (simp add: q_def pow2_pos)
  have "pow2 (e - 52) = pow2 e * pow2 (- 52)" using pow2_add [of e "- 52"] by simp
  moreover have "pow2 (- 52) = 1 / 2 ^ 52" using pow2_neg_nat [of 52] by simp
  ultimately have qe: "q = pow2 e / 2 ^ 52" by (simp add: q_def)
  define k where "k = round_even (x / q)"
  define y where "y = of_int k * q"
  have "\<bar>of_int k - x / q\<bar> \<le> 1 / 2" unfolding k_def by (rule round_even_close)
  then have "\<bar>of_int k - x / q\<bar> * q \<le> 1 / 2 * q" using q by (simp only: mult_right_mono less_imp_le)
  moreover have "\<bar>of_int k - x / q\<bar> * q = \<bar>y - x\<bar>"
  proof -
    have "\<bar>of_int k - x / q\<bar> * q = \<bar>(of_int k - x / q) * q\<bar>" using q by (simp add: abs_mult)
    also have "(of_int k - x / q) * q = y - x" using q by (simp add: y_def field_simps)
    finally show ?thesis .
  qed
  ultimately have c: "\<bar>y - x\<bar> \<le> q / 2" by simp
  have "q / 2 = pow2 e / 2 ^ 53" by (simp add: qe)
  also have "\<dots> \<le> x / 2 ^ 53" using b(1) by (simp add: divide_right_mono)
  finally have d: "q / 2 \<le> x / 2 ^ 53" .
  have cl: "\<bar>y - x\<bar> \<le> x / 2 ^ 53" using c d by linarith
  have "x / 2 ^ 53 \<le> x" using x by (simp add: field_simps)
  then have "\<bar>y\<bar> \<le> 2 * x" using cl x by linarith
  moreover have "pow2 1023 = 2 ^ 1023" using pow2_nat [of 1023] by simp
  ultimately have fin: "\<not> 2 ^ 1024 \<le> \<bar>y\<bar>" using hi by simp
  have "round64 x = Fin y"
    using x e fin
    by (simp add: round64_def Let_def e_def [symmetric] max_def q_def [symmetric]
        k_def [symmetric] y_def [symmetric])
  then show ?thesis using cl by blast
qed

lemma round64_zero: "round64 0 = Fin 0"
  by (simp add: round64_def)

lemma quotient_close:
  assumes n: "0 < n" "n < 2 ^ 53" and c: "c < 2 ^ 53"
  shows "\<exists>v. js_div (num c) (num n) = Fin v \<and>
    \<bar>v - of_nat c / of_nat n\<bar> \<le> of_nat c / of_nat n / 2 ^ 53"
proof (cases "c = 0")
  case True
  then show ?thesis using n by (simp add: num_def round64_zero)
next
  case False
  define x :: rat where "x = of_nat c / of_nat n"
  have n': "(0::rat) < of_nat n" "(of_nat n :: rat) \<le> 2 ^ 53"
    using n by (simp, metis less_imp_le of_nat_le_iff of_nat_numeral of_nat_power)
  have c': "(1::rat) \<le> of_nat c" "(of_nat c :: rat) \<le> 2 ^ 53"
    using False c by (simp, metis less_imp_le of_nat_le_iff of_nat_numeral of_nat_power)
  have "1 / 2 ^ 53 \<le> 1 / (of_nat n :: rat)" using n' by (simp add: field_simps)
  also have "\<dots> \<le> x" using c'(1) n'(1) by (simp add: x_def divide_right_mono)
  finally have lo: "1 / 2 ^ 53 \<le> x" .
  have "x \<le> of_nat c" using n n'(1) c'(1) by (simp add: x_def field_simps)
  then have hi: "x \<le> 2 ^ 53" using c'(2) by linarith
  have "pow2 (- 1022) \<le> pow2 (- 53)" by (rule pow2_mono) simp
  moreover have "pow2 (- 53) = 1 / 2 ^ 53" using pow2_neg_nat [of 53] by simp
  ultimately have a: "pow2 (- 1022) \<le> x" using lo by linarith
  have "pow2 53 \<le> pow2 1022" by (rule pow2_mono) simp
  moreover have "pow2 53 = 2 ^ 53" using pow2_nat [of 53] by simp
  moreover have "pow2 1022 < pow2 1023" by (simp add: pow2_powi)
  ultimately have b: "x < pow2 1023" using hi by linarith
  show ?thesis using round64_close [OF a b] n by (simp add: num_def x_def)
qed

lemma scaled_quotient_close:
  assumes n: "0 < n" "n < 2 ^ 53" and c: "c < 2 ^ 53"
  shows "\<exists>v. js_mul (js_div (num c) (num n)) (Fin 1000) = Fin v \<and>
    \<bar>v - of_nat c / of_nat n * 1000\<bar> \<le> of_nat c / of_nat n * 1000 / 2 ^ 51"
proof (cases "c = 0")
  case True
  then show ?thesis using n by (simp add: num_def round64_zero)
next
  case False
  define x :: rat where "x = of_nat c / of_nat n"
  obtain d where d: "js_div (num c) (num n) = Fin d" "\<bar>d - x\<bar> \<le> x / 2 ^ 53"
    using quotient_close [OF n c] unfolding x_def by blast
  have n': "(0::rat) < of_nat n" "(of_nat n :: rat) \<le> 2 ^ 53"
    using n by (simp, metis less_imp_le of_nat_le_iff of_nat_numeral of_nat_power)
  have c': "(1::rat) \<le> of_nat c" "(of_nat c :: rat) \<le> 2 ^ 53"
    using False c by (simp, metis less_imp_le of_nat_le_iff of_nat_numeral of_nat_power)
  have "1 / 2 ^ 53 \<le> 1 / (of_nat n :: rat)" using n' by (simp add: field_simps)
  also have "\<dots> \<le> x" using c'(1) n'(1) by (simp add: x_def divide_right_mono)
  finally have lo: "1 / 2 ^ 53 \<le> x" .
  have "x \<le> of_nat c" using n n'(1) c'(1) by (simp add: x_def field_simps)
  then have hi: "x \<le> 2 ^ 53" using c'(2) by linarith
  have x: "0 < x" using c'(1) n'(1) by (simp add: x_def)
  then have "x / 2 ^ 53 \<le> x / 2" by simp
  then have dl: "x / 2 \<le> d" "d \<le> 2 * x" using d(2) by (linarith+)
  have "pow2 (- 1022) \<le> pow2 (- 54)" by (rule pow2_mono) simp
  moreover have "pow2 (- 54) = 1 / 2 ^ 54" using pow2_neg_nat [of 54] by simp
  ultimately have a: "pow2 (- 1022) \<le> d * 1000" using lo dl(1) by simp
  have "pow2 64 \<le> pow2 1022" by (rule pow2_mono) simp
  moreover have "pow2 64 = 2 ^ 64" using pow2_nat [of 64] by simp
  moreover have "pow2 1022 < pow2 1023" by (simp add: pow2_powi)
  ultimately have b: "d * 1000 < pow2 1023" using hi dl(2) by simp
  obtain r where r: "round64 (d * 1000) = Fin r" "\<bar>r - d * 1000\<bar> \<le> d * 1000 / 2 ^ 53"
    using round64_close [OF a b] by blast
  have "\<bar>r - x * 1000\<bar> \<le> x * 1000 / 2 ^ 51" using r(2) d(2) dl unfolding abs_le_iff by simp
  then show ?thesis using d(1) r(1) by (simp add: x_def)
qed

text \<open>The rounding of a quotient of numerals is computed with integers.\<close>

lemma floor_rat_div: "\<lfloor>numeral a / numeral b :: rat\<rfloor> = numeral a div numeral b"
  using floor_divide_of_int_eq [of "numeral a" "numeral b", where ?'a = rat] by simp

lemma floor_rat_one_div: "\<lfloor>1 / numeral b :: rat\<rfloor> = 1 div numeral b"
  using floor_divide_of_int_eq [of 1 "numeral b", where ?'a = rat] by simp

lemma ceiling_rat_div: "\<lceil>numeral a / numeral b :: rat\<rceil> = - ((- numeral a) div numeral b)"
  using floor_divide_of_int_eq [of "- numeral a" "numeral b", where ?'a = rat]
  by (simp add: ceiling_def)

lemmas round64_eval = round64_def floor_log2_def round_even_def pow2_def Let_def bits.simps
  floor_rat_div floor_rat_one_div ceiling_rat_div

lemma round64_ties:
  "round64 (2 ^ 53 + 1) = Fin (2 ^ 53)" "round64 (2 ^ 53 + 3) = Fin (2 ^ 53 + 4)"
  "round64 (1 / 2) = Fin (1 / 2)" "round64 3 = Fin 3"
  by (simp_all add: round64_eval)

lemma round64_ninth: "round64 (1 / 9) = Fin (2001599834386887 / 18014398509481984)"
  by (simp add: round64_eval)

lemma round64_ninth_scaled:
  "round64 (2001599834386887 / 18014398509481984 * 1000) =
     Fin (7818749353073777 / 70368744177664)"
  "round64 (250199979298360875 / 2251799813685248) = Fin (7818749353073777 / 70368744177664)"
  by (simp_all add: round64_eval)

lemma round64_third: "round64 (1 / 3) = Fin (6004799503160661 / 18014398509481984)"
  by (simp add: round64_eval)

text \<open>
  The two roundings of the reference density show: 161 references in 320 words give
  \<open>503.12500000000006\<close>, not \<open>503.125\<close>.
\<close>

lemma scaled_quotient_rounds_twice:
  "js_mul (js_div (num 161) (num 320)) (Fin 1000) = Fin (8851068603596801 / 17592186044416)"
  "(8851068603596801 / 17592186044416 :: rat) \<noteq> 161 / 320 * 1000"
  by (simp_all add: num_def round64_eval)

lemma ref_starts_le_length: "ref_starts s \<le> length s"
  by (induction s) auto

lemma length_le_total: "\<forall>m \<in> set xs. m \<noteq> [] \<Longrightarrow> length xs \<le> sum_list (map length xs)"
proof (induction xs)
  case Nil
  then show ?case by simp
next
  case (Cons m xs)
  obtain c cs where m: "m = c # cs" using Cons.prems by (cases m) auto
  have "length xs \<le> sum_list (map length xs)" using Cons by simp
  then show ?case by (simp add: m)
qed

lemma quoted_spans_le_length: "length (quoted_spans s) \<le> length s"
proof -
  have "\<forall>m \<in> set (quoted_spans s). m \<noteq> []" using quoted_spans_shape [of _ s] by blast
  then have "length (quoted_spans s) \<le> sum_list (map length (quoted_spans s))"
    by (rule length_le_total)
  then show ?thesis using quoted_spans_total [of s] by linarith
qed

lemma refDensity_value:
  "computeRefDensity s n = js_mul (js_div (num (ref_starts s)) (num n)) (Fin 1000)"
  by (simp add: computeRefDensity_def or_empty_match match_all_REF_RE_count)

lemma defFreq_value:
  "computeDefFreq s n = js_div (num (length (quoted_spans s))) (num n)"
  by (simp add: computeDefFreq_def or_empty_match match_all_DEF_RE)

lemmas eval_defs = scenario1_def ascii_def SECT_def LDQ_def RDQ_def DOT_def is_space_def is_digit_def
  countWords_def split_def trim_def WS_RE_def REF_RE_def DEF_RE_def OneOrMore_def
  computeRefDensity_def computeDefFreq_def or_empty_def js_match_def num_def round64_zero

lemma scenario1_words: "countWords scenario1 = 9"
  by (simp add: eval_defs)

lemma scenario1_refs: "match_all REF_RE scenario1 = [[SECT] @ ascii '' 1.1'']"
  by (simp add: eval_defs)

lemma scenario1_defs: "match_all DEF_RE scenario1 = [[LDQ] @ ascii ''widget'' @ [RDQ]]"
  by (simp add: eval_defs)

lemma scenario1_refDensity:
  "computeRefDensity scenario1 (countWords scenario1) = Fin (7818749353073777 / 70368744177664)"
  by (simp add: scenario1_words computeRefDensity_def or_empty_match scenario1_refs num_def
      round64_ninth round64_ninth_scaled)

section \<open>Properties of the checksum and of a run\<close>

lemma length_hex32: "length (hex32 w) = 8"
  by (simp add: hex32_def Let_def)

lemma is_hex_digit: "n < 16 \<Longrightarrow> is_hex (hex_digit n)"
  by (auto simp: is_hex_def hex_digit_def)

lemma hex32_is_hex: "c \<in> set (hex32 w) \<Longrightarrow> is_hex c"
  by (auto simp: hex32_def Let_def intro!: is_hex_digit)

lemma length_digest_hex: "length (digest_hex h) = 64"
  by (cases h rule: digest_hex.cases) (simp add: length_hex32)

lemma digest_hex_is_hex: "c \<in> set (digest_hex h) \<Longrightarrow> is_hex c"
  by (cases h rule: digest_hex.cases) (auto dest: hex32_is_hex)

lemma computeChecksum_nonempty: "computeChecksum t \<noteq> []"
  using length_digest_hex [of "sha256 (utf8 t)"] by (auto simp: computeChecksum_def)

lemma checksum_snapshot: "checksum (snapshot_of info) = computeChecksum (info_content info)"
  by (simp add: snapshot_of_def Let_def)

lemma fold_max_ge: "a \<le> fold max xs (a::nat)"
proof (induction xs arbitrary: a)
  case Nil
  then show ?case by simp
next
  case (Cons y ys)
  have "a \<le> max y a" by simp
  also have "max y a \<le> fold max ys (max y a)" by (rule Cons.IH)
  finally show ?case by simp
qed

lemma fold_max_mem: "x \<in> set xs \<Longrightarrow> x \<le> fold max xs (a::nat)"
proof (induction xs arbitrary: a)
  case Nil
  then show ?case by simp
next
  case (Cons y ys)
  show ?case
  proof (cases "x = y")
    case True
    have "max y a \<le> fold max ys (max y a)" by (rule fold_max_ge)
    then show ?thesis using True by simp
  next
    case False
    then show ?thesis using Cons by simp
  qed
qed

lemma fresh_id_new: "fresh_id store \<notin> fst ` set store"
proof
  assume "fresh_id store \<in> fst ` set store"
  then have "fresh_id store \<in> set (map fst store)" by simp
  then have "fresh_id store \<le> fold max (map fst store) 0" by (rule fold_max_mem)
  then show False by (simp add: fresh_id_def)
qed

lemma create_appends:
  "Regulation_create w store doc = Inr store' \<Longrightarrow> store' = store @ [(fresh_id store, doc)]"
  by (auto simp: Regulation_create_def split: if_splits)

lemma create_free_of_store:
  "Regulation_create w store doc = Inr store' \<Longrightarrow>
     Regulation_create w other doc = Inr (other @ [(fresh_id other, doc)])"
  by (auto simp: Regulation_create_def split: if_splits)

lemma ingest_loop_completed:
  "ingest_loop w ts store out = Completed store' out' \<Longrightarrow>
     \<exists>new. store' = store @ new \<and> map snd new = new_docs w ts"
proof (induction ts arbitrary: store out)
  case Nil
  then show ?case by (simp add: new_docs_def List.map_filter_simps)
next
  case (Cons t ts)
  obtain r lines where f: "fetchTitle w t = (r, lines)" by (cases "fetchTitle w t")
  show ?case
  proof (cases r)
    case None
    with Cons.prems f have "ingest_loop w ts store (out @ lines) = Completed store' out'"
      by simp
    from Cons.IH [OF this] show ?thesis
      using None f by (simp add: new_docs_def List.map_filter_simps)
  next
    case (Some info)
    show ?thesis
    proof (cases "Regulation_create w store (snapshot_of info)")
      case (Inl e)
      with Cons.prems f Some show ?thesis by (simp add: Let_def)
    next
      case (Inr s1)
      then have s1: "s1 = store @ [(fresh_id store, snapshot_of info)]" by (rule create_appends)
      from Cons.prems f Some Inr obtain o1 where
        "ingest_loop w ts s1 o1 = Completed store' out'"
        by (simp add: Let_def)
      from Cons.IH [OF this] obtain new where "store' = s1 @ new" "map snd new = new_docs w ts"
        by blast
      then show ?thesis
        using s1 f Some by (simp add: new_docs_def List.map_filter_simps)
    qed
  qed
qed

lemma ingest_loop_rejected:
  "ingest_loop w ts store out = Rejected e store' out' \<Longrightarrow> \<exists>new. store' = store @ new"
proof (induction ts arbitrary: store out)
  case Nil
  then show ?case by simp
next
  case (Cons t ts)
  obtain r lines where f: "fetchTitle w t = (r, lines)" by (cases "fetchTitle w t")
  show ?case
  proof (cases r)
    case None
    with Cons.prems f have "ingest_loop w ts store (out @ lines) = Rejected e store' out'"
      by simp
    from Cons.IH [OF this] show ?thesis .
  next
    case (Some info)
    show ?thesis
    proof (cases "Regulation_create w store (snapshot_of info)")
      case (Inl e')
      with Cons.prems f Some show ?thesis by (simp add: Let_def)
    next
      case (Inr s1)
      then have s1: "s1 = store @ [(fresh_id store, snapshot_of info)]" by (rule create_appends)
      from Cons.prems f Some Inr obtain o1 where
        "ingest_loop w ts s1 o1 = Rejected e store' out'"
        by (simp add: Let_def)
      from Cons.IH [OF this] obtain new where "store' = s1 @ new" by blast
      then show ?thesis using s1 by simp
    qed
  qed
qed

lemma ingest_loop_again:
  "ingest_loop w ts store out = Completed store' out' \<Longrightarrow>
     \<exists>s2 o2. ingest_loop w ts other out2 = Completed s2 o2"
proof (induction ts arbitrary: store out other out2)
  case Nil
  then show ?case by simp
next
  case (Cons t ts)
  obtain r lines where f: "fetchTitle w t = (r, lines)" by (cases "fetchTitle w t")
  show ?case
  proof (cases r)
    case None
    with Cons.prems f have "ingest_loop w ts store (out @ lines) = Completed store' out'"
      by simp
    from Cons.IH [OF this, of other "out2 @ lines"] show ?thesis using None f by simp
  next
    case (Some info)
    show ?thesis
    proof (cases "Regulation_create w store (snapshot_of info)")
      case (Inl e)
      with Cons.prems f Some show ?thesis by (simp add: Let_def)
    next
      case (Inr s1)
      from Cons.prems f Some Inr obtain o1 where
        "ingest_loop w ts s1 o1 = Completed store' out'"
        by (simp add: Let_def)
      from Cons.IH [OF this] show ?thesis
        using f Some create_free_of_store [OF Inr, of other] by (simp add: Let_def)
    qed
  qed
qed

lemma decimal_digit: "n < 10 \<Longrightarrow> decimal n = [0x30 + n]"
  by simp

lemma title_name_eq: "a < 10 \<Longrightarrow> b < 10 \<Longrightarrow> title_name a = title_name b \<longleftrightarrow> a = b"
  by (simp add: title_name_def)

lemma section_texts_sample: "section_texts sample_doc = [ascii ''a'']"
  by (simp add: section_texts_def sample_doc_def section_text_def or_blank_def trim_def ascii_def
      SP_def is_space_def)

lemma title_of_sample: "title_of t sample_doc = title_name t"
  by (simp add: title_of_def sample_doc_def)

lemma content_of_sample: "content_of xml sample_doc = ascii ''a''"
  by (simp add: content_of_def section_texts_sample)

lemma fetch_sample:
  "t \<in> {1, 2, 3} \<Longrightarrow> fetchTitle sample_world t = (Some (sample_info t), [])"
  by (auto simp: fetchTitle_def getLatestVersionDate_def sample_world_def sample_index_def
      sample_info_def content_of_sample title_of_sample)

lemma fetch_refusing: "fetchTitle refusing_world t = fetchTitle sample_world t"
proof -
  have a: "titles_for refusing_world = titles_for sample_world"
    "full_xml refusing_world = full_xml sample_world"
    "parse_xml refusing_world = parse_xml sample_world"
    by (simp_all add: refusing_world_def)
  show ?thesis unfolding fetchTitle_def getLatestVersionDate_def a ..
qed

lemma words_a: "countWords (ascii ''a'') = 1"
  by (simp add: eval_defs)

lemma snapshot_sample: "snapshot_of (sample_info t) = sample_snapshot t"
  by (simp add: snapshot_of_def sample_info_def sample_snapshot_def Let_def words_a eval_defs)

lemma valid_sample: "schema_valid (sample_snapshot t)"
  by (simp add: sample_snapshot_def schema_valid_def computeChecksum_nonempty title_name_def)

lemma accepted_write_goes_on:
  "fetchTitle w t = (Some info, lines) \<Longrightarrow>
   Regulation_create w store (snapshot_of info) = Inr store' \<Longrightarrow>
   ingest_loop w (t # ts) store out =
     ingest_loop w ts store'
       (out @ lines @
        [Ingested (title (snapshot_of info)) (agency (snapshot_of info))
           (versionDate (snapshot_of info)) (refDensity (snapshot_of info))
           (defFreq (snapshot_of info))])"
  by (simp add: Let_def)

lemma sample_step:
  assumes "t \<in> {1, 2, 3}" "fetchTitle w t = fetchTitle sample_world t"
    "\<not> store_fails w (sample_snapshot t)"
  shows "ingest_loop w (t # ts) store out =
     ingest_loop w ts (store @ [(fresh_id store, sample_snapshot t)])
       (out @ [Ingested (title_name t) (title_name t) 19000 (Fin 0) (Fin 0)])"
proof -
  have f: "fetchTitle w t = (Some (sample_info t), [])"
    using assms(1,2) by (simp add: fetch_sample)
  have c: "Regulation_create w store (snapshot_of (sample_info t)) =
      Inr (store @ [(fresh_id store, sample_snapshot t)])"
    using assms(3) valid_sample [of t] by (simp add: Regulation_create_def snapshot_sample)
  show ?thesis
    unfolding accepted_write_goes_on [OF f c] snapshot_sample
    by (simp add: sample_snapshot_def)
qed

lemma refusing_first_step:
  "ingest_loop refusing_world [1, 2, 3] [] [] =
     ingest_loop refusing_world [2, 3] [(1, sample_snapshot 1)]
       [Ingested (title_name 1) (title_name 1) 19000 (Fin 0) (Fin 0)]"
proof -
  have "\<not> store_fails refusing_world (sample_snapshot 1)"
    by (simp add: refusing_world_def sample_snapshot_def title_name_eq)
  then have "ingest_loop refusing_world (1 # [2, 3]) [] [] =
     ingest_loop refusing_world [2, 3] ([] @ [(fresh_id [], sample_snapshot 1)])
       ([] @ [Ingested (title_name 1) (title_name 1) 19000 (Fin 0) (Fin 0)])"
    by (intro sample_step) (simp_all add: fetch_refusing)
  then show ?thesis by (simp add: fresh_id_def del: ingest_loop.simps)
qed

lemma sample_run: "ingestAll sample_world [] = Completed sample_store sample_out"
proof -
  have nf: "\<not> store_fails sample_world d" for d by (simp add: sample_world_def)
  have "ingest_loop sample_world (1 # [2, 3]) [] [] =
      ingest_loop sample_world [2, 3] ([] @ [(fresh_id [], sample_snapshot 1)])
       ([] @ [Ingested (title_name 1) (title_name 1) 19000 (Fin 0) (Fin 0)])"
    by (intro sample_step) (simp_all add: nf)
  also have "\<dots> = ingest_loop sample_world (2 # [3]) [(1, sample_snapshot 1)]
       [Ingested (title_name 1) (title_name 1) 19000 (Fin 0) (Fin 0)]"
    by (simp add: fresh_id_def numeral_2_eq_2 [symmetric] del: ingest_loop.simps)
  also have "\<dots> = ingest_loop sample_world [3]
       ([(1, sample_snapshot 1)] @ [(fresh_id [(1, sample_snapshot 1)], sample_snapshot 2)])
       ([Ingested (title_name 1) (title_name 1) 19000 (Fin 0) (Fin 0)] @
        [Ingested (title_name 2) (title_name 2) 19000 (Fin 0) (Fin 0)])"
    by (intro sample_step) (simp_all add: nf)
  also have "\<dots> = ingest_loop sample_world (3 # [])
       [(1, sample_snapshot 1), (2, sample_snapshot 2)]
       [Ingested (title_name 1) (title_name 1) 19000 (Fin 0) (Fin 0),
        Ingested (title_name 2) (title_name 2) 19000 (Fin 0) (Fin 0)]"
    by (simp add: fresh_id_def numeral_2_eq_2 [symmetric] del: ingest_loop.simps)
  also have "\<dots> = ingest_loop sample_world []
       ([(1, sample_snapshot 1), (2, sample_snapshot 2)] @
        [(fresh_id [(1, sample_snapshot 1), (2, sample_snapshot 2)], sample_snapshot 3)])
       ([Ingested (title_name 1) (title_name 1) 19000 (Fin 0) (Fin 0),
        Ingested (title_name 2) (title_name 2) 19000 (Fin 0) (Fin 0)] @
        [Ingested (title_name 3) (title_name 3) 19000 (Fin 0) (Fin 0)])"
    by (intro sample_step) (simp_all add: nf)
  also have "\<dots> = Completed sample_store
       [Ingested (title_name 1) (title_name 1) 19000 (Fin 0) (Fin 0),
        Ingested (title_name 2) (title_name 2) 19000 (Fin 0) (Fin 0),
        Ingested (title_name 3) (title_name 3) 19000 (Fin 0) (Fin 0)]"
    by (simp add: fresh_id_def sample_store_def numeral_2_eq_2 [symmetric])
  finally show ?thesis
    by (simp add: ingestAll_def sample_world_def sample_index_def sample_out_def)
qed

lemma fetch_failure_is_skipped:
  "fetchTitle w t = (None, lines) \<Longrightarrow>
     ingest_loop w (t # ts) store out = ingest_loop w ts store (out @ lines)"
  by simp

lemma fetch_failure_is_logged:
  "fst (fetchTitle w t) = None \<Longrightarrow> \<exists>e. Error_fetching_title t e \<in> set (snd (fetchTitle w t))"
  by (auto simp: fetchTitle_def split: prod.splits sum.splits)

lemma ingest_loop_same_fetch:
  "(\<And>t. fetchTitle w t = fetchTitle w' t) \<Longrightarrow> store_fails w = store_fails w' \<Longrightarrow>
     ingest_loop w ts store out = ingest_loop w' ts store out"
proof (induction ts arbitrary: store out)
  case Nil
  then show ?case by simp
next
  case (Cons t ts)
  have "Regulation_create w s d = Regulation_create w' s d" for s d
    using Cons.prems(2) by (simp add: Regulation_create_def)
  then show ?case
    using Cons by (simp add: Let_def split: prod.splits option.splits sum.splits)
qed

lemma section_texts_labelled: "section_texts labelled_doc = [ascii ''<a/>'']"
  by (simp add: section_texts_def labelled_doc_def section_text_def or_blank_def trim_def ascii_def
      SP_def is_space_def)

lemma fetch_fallback_sectioned: "fetchTitle fallback_world t = fetchTitle sectioned_world t"
proof -
  have "content_of (ascii ''<a/>'') None = content_of xml labelled_doc" for xml
    by (simp add: content_of_def section_texts_labelled) (simp add: section_texts_def)
  moreover have "title_of t None = title_of t labelled_doc"
    by (simp add: title_of_def labelled_doc_def)
  ultimately show ?thesis
    by (simp add: fetchTitle_def getLatestVersionDate_def fallback_world_def sectioned_world_def
        split: option.splits)
qed

section \<open>Properties of the read endpoints\<close>

lemma ends_DIGITS_RE:
  "ends DIGITS_RE (c # cs) = (if is_digit c then backoffs is_digit cs else [])"
  by (simp add: DIGITS_RE_def ends_plus_atom accepts_Digit)

lemma first_match_digit_head:
  assumes "is_digit c"
  shows "first_match DIGITS_RE (c # cs) = Some (c # takeWhile is_digit cs)"
proof -
  obtain us where us: "backoffs is_digit cs = dropWhile is_digit cs # us"
    using backoffs_shape by blast
  have "length cs = length (takeWhile is_digit cs) + length (dropWhile is_digit cs)"
    by (metis length_append takeWhile_dropWhile_id)
  then have n: "Suc (length cs) - length (dropWhile is_digit cs) = Suc (length (takeWhile is_digit cs))"
    by simp
  have "take (length (takeWhile is_digit cs)) cs = takeWhile is_digit cs"
    by (simp add: takeWhile_eq_take [symmetric])
  then have "take (Suc (length cs) - length (dropWhile is_digit cs)) (c # cs) =
      c # takeWhile is_digit cs"
    unfolding n by simp
  moreover have "first_match DIGITS_RE (c # cs) =
      Some (take (Suc (length cs) - length (dropWhile is_digit cs)) (c # cs))"
    using assms by (simp add: ends_DIGITS_RE us)
  ultimately show ?thesis by simp
qed

lemma first_match_digits:
  "first_match DIGITS_RE a = (if has_digit a then Some (first_digits a) else None)"
proof (induction a)
  case Nil
  then show ?case by (simp add: DIGITS_RE_def ends_plus_atom has_digit_def)
next
  case (Cons c cs)
  show ?case
  proof (cases "is_digit c")
    case True
    have "has_digit (c # cs)" using True by (simp add: has_digit_def)
    moreover have "first_digits (c # cs) = c # takeWhile is_digit cs"
      using True by (simp add: first_digits_def)
    ultimately show ?thesis using first_match_digit_head [OF True, of cs] by simp
  next
    case False
    have "first_match DIGITS_RE (c # cs) = first_match DIGITS_RE cs"
      using False by (simp add: ends_DIGITS_RE)
    moreover have "has_digit (c # cs) = has_digit cs" using False by (simp add: has_digit_def)
    moreover have "first_digits (c # cs) = first_digits cs"
      using False by (simp add: first_digits_def)
    ultimately show ?thesis using Cons by simp
  qed
qed

lemma agency_number_eq:
  "agency_number a = (if has_digit a then Inr (agency_key a) else Inl TypeError)"
  by (simp add: agency_number_def first_match_digits agency_key_def)

lemma compare_agencies_eq:
  "compare_agencies a b =
     (if has_digit a \<and> has_digit b then Inr (int (agency_key a) - int (agency_key b))
      else Inl TypeError)"
  by (simp add: compare_agencies_def agency_number_eq)

lemma insert_by_good:
  "has_digit x \<Longrightarrow> \<forall>y \<in> set ys. has_digit y \<Longrightarrow>
     insert_by compare_agencies x ys = Inr (insort_key agency_key x ys)"
  by (induction ys) (auto simp: compare_agencies_eq)

lemma sort_by_good:
  "\<forall>a \<in> set names. has_digit a \<Longrightarrow>
     sort_by compare_agencies names = Inr (sort_key agency_key names)"
proof (induction names)
  case Nil
  then show ?case by simp
next
  case (Cons x xs)
  then have "sort_by compare_agencies xs = Inr (sort_key agency_key xs)" by simp
  moreover have "insert_by compare_agencies x (sort_key agency_key xs) =
      Inr (insort_key agency_key x (sort_key agency_key xs))"
    using Cons.prems by (intro insert_by_good) simp_all
  ultimately show ?case by simp
qed

lemma insert_by_bad:
  "\<not> has_digit x \<or> \<not> has_digit y \<Longrightarrow> insert_by compare_agencies x (y # ys) = Inl TypeError"
  by (auto simp: compare_agencies_eq)

lemma sort_by_result:
  "sort_by compare_agencies names = Inr res \<Longrightarrow> length res = length names"
proof (induction names arbitrary: res)
  case Nil
  then show ?case by simp
next
  case (Cons x xs)
  then obtain ys where ys: "sort_by compare_agencies xs = Inr ys"
    "insert_by compare_agencies x ys = Inr res"
    by (auto split: sum.splits)
  have "insert_by compare_agencies x zs = Inr r \<Longrightarrow> length r = Suc (length zs)" for zs r
    by (induction zs arbitrary: r) (auto split: sum.splits if_splits)
  then show ?case using ys Cons.IH by auto
qed

lemma sort_by_error_is_TypeError:
  "sort_by compare_agencies names = Inl e \<Longrightarrow> e = TypeError"
proof (induction names)
  case Nil
  then show ?case by simp
next
  case (Cons x xs)
  have "insert_by compare_agencies x zs = Inl e \<Longrightarrow> e = TypeError" for zs
    by (induction zs) (auto simp: compare_agencies_eq split: sum.splits if_splits)
  then show ?case using Cons by (auto split: sum.splits)
qed

lemma sort_by_bad:
  "2 \<le> length names \<Longrightarrow> \<exists>a \<in> set names. \<not> has_digit a \<Longrightarrow>
     sort_by compare_agencies names = Inl TypeError"
proof (induction names)
  case Nil
  then show ?case by simp
next
  case (Cons x xs)
  show ?case
  proof (cases "sort_by compare_agencies xs")
    case (Inl e)
    then show ?thesis using sort_by_error_is_TypeError [OF Inl] by simp
  next
    case (Inr ys)
    have len: "length ys = length xs" using Inr by (rule sort_by_result)
    then obtain y ys' where y: "ys = y # ys'" using Cons.prems(1) by (cases ys) auto
    have good: "\<forall>a \<in> set xs. has_digit a \<Longrightarrow> \<not> has_digit x"
      using Cons.prems(2) by auto
    show ?thesis
    proof (cases "\<forall>a \<in> set xs. has_digit a")
      case True
      then have "\<not> has_digit x" by (rule good)
      then show ?thesis using Inr y by (simp add: insert_by_bad del: insert_by.simps)
    next
      case False
      have "length xs < 2"
      proof (rule ccontr)
        assume "\<not> length xs < 2"
        then have "sort_by compare_agencies xs = Inl TypeError"
          using False by (intro Cons.IH) auto
        then show False using Inr by simp
      qed
      then obtain b where b: "xs = [b]" using len y by (cases xs) auto
      then have "ys = [b]" "\<not> has_digit b" using Inr False by auto
      then show ?thesis using Inr by (simp add: insert_by_bad del: insert_by.simps)
    qed
  qed
qed

lemma sort_by_short: "length names < 2 \<Longrightarrow> sort_by compare_agencies names = Inr names"
  by (cases names; cases "tl names") auto

lemma hd_sort_key_min:
  "xs \<noteq> [] \<Longrightarrow> y \<in> set xs \<Longrightarrow> f (hd (sort_key f xs)) \<le> f y"
proof -
  assume ne: "xs \<noteq> []" and y: "y \<in> set xs"
  have s: "sorted (map f (sort_key f xs))" by simp
  have ne': "sort_key f xs \<noteq> []" using ne by (metis length_sort length_0_conv)
  then obtain z zs where z: "sort_key f xs = z # zs" by (cases "sort_key f xs") auto
  have "y \<in> set (sort_key f xs)" using y by simp
  then show ?thesis using s z by auto
qed

section \<open>The claims about the metrics\<close>

text \<open>
  Claim C1 asks that a text with no word gets both densities \<open>0\<close>, with no unguarded
  division by zero. The script divides by the word count without a guard: for every text
  whose word count is \<open>0\<close> both densities are \<open>0 / 0\<close>, which is NaN. Such a text
  is what \<^verbatim>\<open>fetchTitle\<close> returns for a regulation whose sections are all blank.
\<close>
theorem zero_words_give_NaN:
  "countWords s = 0 \<Longrightarrow>
     computeRefDensity s (countWords s) = NaN \<and> computeDefFreq s (countWords s) = NaN"
proof -
  assume z: "countWords s = 0"
  then have sp: "\<forall>c \<in> set s. is_space c"
    by (simp add: countWords_token_starts token_starts_zero)
  have "SECT \<notin> set s" using sp sect_not_space by blast
  then have r: "match_all REF_RE s = []"
    using match_all_REF_RE_count [of s] by (simp add: ref_starts_no_sect)
  have "LDQ \<notin> set s" using sp ldq_not_space by blast
  then have d: "match_all DEF_RE s = []"
    by (simp add: match_all_DEF_RE quoted_spans_no_quote)
  show ?thesis
    by (simp add: z computeRefDensity_def computeDefFreq_def or_empty_match r d num_def)
qed

theorem zero_words_give_NaN_witness:
  "content_of (ascii ''<regulation><section/><section/></regulation>'') blank_sections_doc =
     [NL, NL] \<and>
   countWords [NL, NL] = 0 \<and>
   computeRefDensity [NL, NL] (countWords [NL, NL]) = NaN \<and>
   computeDefFreq [NL, NL] (countWords [NL, NL]) = NaN"
proof -
  have c: "content_of (ascii ''<regulation><section/><section/></regulation>'')
      blank_sections_doc = [NL, NL]"
    by (simp add: content_of_def section_texts_def blank_sections_doc_def section_text_def
        or_blank_def trim_def SP_def is_space_def)
  have z: "countWords [NL, NL] = 0"
    by (simp add: countWords_def split_def trim_def WS_RE_def OneOrMore_def is_space_def NL_def)
  show ?thesis using c z zero_words_give_NaN [OF z] by simp
qed

text \<open>
  Claim C7: the word count of a text is the number of its maximal non-empty tokens
  delimited by white space, that is the number of positions holding a character that is
  not white space and is first in the text or preceded by white space; it is \<open>0\<close> exactly
  for the empty and the all-white-space texts.
\<close>
theorem countWords_counts_tokens:
  "countWords s =
     length (filter (\<lambda>i. \<not> is_space (s ! i) \<and> (i = 0 \<or> is_space (s ! (i - 1)))) [0..<length s]) \<and>
   (countWords s = 0 \<longleftrightarrow> (\<forall>c \<in> set s. is_space c))"
proof -
  have "(\<lambda>i. \<not> is_space (s ! i) \<and> (if i = 0 then True else is_space (s ! (i - 1)))) =
      (\<lambda>i. \<not> is_space (s ! i) \<and> (i = 0 \<or> is_space (s ! (i - 1))))"
    by auto
  then have a: "countWords s =
      length (filter (\<lambda>i. \<not> is_space (s ! i) \<and> (i = 0 \<or> is_space (s ! (i - 1)))) [0..<length s])"
    using token_starts_index [of True s] by (simp only: countWords_token_starts)
  have b: "countWords s = 0 \<longleftrightarrow> (\<forall>c \<in> set s. is_space c)"
    by (simp only: countWords_token_starts token_starts_zero)
  show ?thesis using a b by (rule conjI)
qed

theorem countWords_counts_tokens_witness:
  "length (filter (\<lambda>i. \<not> is_space (scenario1 ! i) \<and> (i = 0 \<or> is_space (scenario1 ! (i - 1))))
     [0..<length scenario1]) = 9"
  using countWords_counts_tokens [of scenario1] by (simp only: scenario1_words)

text \<open>
  Claim C5: the reference density is the number of references in the text (a section mark,
  optional white space, one or more groups of digits separated by periods; one is counted
  at every position where one starts) divided by the word count \<open>n\<close>, times \<open>1000\<close>,
  each of the two operations rounding to the nearest float. For \<open>n > 0\<close> the result is a
  finite number that differs from the exact value of the quotient times \<open>1000\<close> by at most
  one part in \<open>2 ^ 51\<close> of it. Everything counted is a reference, so a text without section
  mark has density \<open>0\<close> whatever numbers it holds. The section of scenario 1 has 9 words
  and 1 reference: its density is the float \<open>111.1111111111111\<close>, within a hundredth of
  \<open>111.11\<close>.
\<close>
theorem refDensity_counts_references:
  "length (or_empty (js_match REF_RE s)) = ref_starts s \<and>
   computeRefDensity s n = js_mul (js_div (num (ref_starts s)) (num n)) (Fin 1000) \<and>
   (0 < n \<and> n < 2 ^ 53 \<and> length s < 2 ^ 53 \<longrightarrow>
      (\<exists>v. computeRefDensity s n = Fin v \<and>
         \<bar>v - of_nat (ref_starts s) / of_nat n * 1000\<bar> \<le>
           of_nat (ref_starts s) / of_nat n * 1000 / 2 ^ 51)) \<and>
   (\<forall>t. ref_at t \<longleftrightarrow> (\<exists>w e. t = w @ e \<and> is_reference w)) \<and>
   (\<forall>m \<in> set (or_empty (js_match REF_RE s)). is_reference m) \<and>
   (0 < n \<and> SECT \<notin> set s \<longrightarrow> computeRefDensity s n = Fin 0) \<and>
   countWords scenario1 = 9 \<and> ref_starts scenario1 = 1 \<and>
   computeRefDensity scenario1 (countWords scenario1) =
     Fin (7818749353073777 / 70368744177664) \<and>
   \<bar>7818749353073777 / 70368744177664 - 111.11\<bar> < (1 / 100 :: rat)"
proof (intro conjI)
  show "length (or_empty (js_match REF_RE s)) = ref_starts s"
    by (simp add: or_empty_match match_all_REF_RE_count)
  show "computeRefDensity s n = js_mul (js_div (num (ref_starts s)) (num n)) (Fin 1000)"
    by (rule refDensity_value)
  show "0 < n \<and> n < 2 ^ 53 \<and> length s < 2 ^ 53 \<longrightarrow>
      (\<exists>v. computeRefDensity s n = Fin v \<and>
         \<bar>v - of_nat (ref_starts s) / of_nat n * 1000\<bar> \<le>
           of_nat (ref_starts s) / of_nat n * 1000 / 2 ^ 51)"
  proof
    assume h: "0 < n \<and> n < 2 ^ 53 \<and> length s < 2 ^ 53"
    have "ref_starts s < 2 ^ 53" using h ref_starts_le_length [of s] by linarith
    then show "\<exists>v. computeRefDensity s n = Fin v \<and>
         \<bar>v - of_nat (ref_starts s) / of_nat n * 1000\<bar> \<le>
           of_nat (ref_starts s) / of_nat n * 1000 / 2 ^ 51"
      using h scaled_quotient_close [of n "ref_starts s"] by (simp only: refDensity_value)
  qed
  show "\<forall>t. ref_at t \<longleftrightarrow> (\<exists>w e. t = w @ e \<and> is_reference w)"
    using ref_at_iff by blast
  show "\<forall>m \<in> set (or_empty (js_match REF_RE s)). is_reference m"
    by (simp add: or_empty_match match_all_REF_RE_shape)
  show "0 < n \<and> SECT \<notin> set s \<longrightarrow> computeRefDensity s n = Fin 0"
    by (simp add: refDensity_value ref_starts_no_sect num_def round64_zero)
  show "countWords scenario1 = 9" by (rule scenario1_words)
  show "ref_starts scenario1 = 1"
    using match_all_REF_RE_count [of scenario1] by (simp add: scenario1_refs)
  show "computeRefDensity scenario1 (countWords scenario1) =
      Fin (7818749353073777 / 70368744177664)"
    by (rule scenario1_refDensity)
  show "\<bar>7818749353073777 / 70368744177664 - 111.11\<bar> < (1 / 100 :: rat)" by simp
qed

theorem refDensity_counts_references_witness:
  "computeRefDensity scenario1 9 = Fin (7818749353073777 / 70368744177664) \<and>
   (\<exists>v. computeRefDensity scenario1 9 = Fin v \<and> \<bar>v - 1000 / 9\<bar> \<le> 1000 / 9 / 2 ^ 51) \<and>
   is_reference ([SECT] @ ascii '' 1.1'') \<and>
   computeRefDensity (ascii ''12.5 of 1.2'') 3 = Fin 0"
proof -
  note t = refDensity_counts_references [of scenario1 9]
  have r: "ref_starts scenario1 = 1" using t by simp
  have "computeRefDensity scenario1 9 =
      js_mul (js_div (num (ref_starts scenario1)) (num 9)) (Fin 1000)"
    using t by (rule_tac conjunct1 [OF conjunct2])
  then have v: "computeRefDensity scenario1 9 = Fin (7818749353073777 / 70368744177664)"
    by (simp add: r num_def round64_ninth round64_ninth_scaled)
  have l: "0 < (9::nat) \<and> (9::nat) < 2 ^ 53 \<and> length scenario1 < 2 ^ 53"
    by (simp add: scenario1_def ascii_def)
  have "0 < (9::nat) \<and> (9::nat) < 2 ^ 53 \<and> length scenario1 < 2 ^ 53 \<longrightarrow>
      (\<exists>v. computeRefDensity scenario1 9 = Fin v \<and>
         \<bar>v - of_nat (ref_starts scenario1) / of_nat 9 * 1000\<bar> \<le>
           of_nat (ref_starts scenario1) / of_nat 9 * 1000 / 2 ^ 51)"
    using t by (rule_tac conjunct1 [OF conjunct2 [OF conjunct2]])
  then have "\<exists>v. computeRefDensity scenario1 9 = Fin v \<and>
         \<bar>v - of_nat (ref_starts scenario1) / of_nat 9 * 1000\<bar> \<le>
           of_nat (ref_starts scenario1) / of_nat 9 * 1000 / 2 ^ 51"
    using l by (rule_tac mp)
  then have b: "\<exists>v. computeRefDensity scenario1 9 = Fin v \<and> \<bar>v - 1000 / 9\<bar> \<le> 1000 / 9 / 2 ^ 51"
    by (simp add: r)
  have "\<forall>m \<in> set (or_empty (js_match REF_RE scenario1)). is_reference m"
    using t by (rule_tac conjunct1 [OF conjunct2 [OF conjunct2 [OF conjunct2 [OF conjunct2]]]])
  then have m: "is_reference ([SECT] @ ascii '' 1.1'')"
    by (simp add: or_empty_match scenario1_refs)
  have a: "SECT \<notin> set (ascii ''12.5 of 1.2'')" by (simp add: ascii_def SECT_def)
  have "0 < (3::nat) \<and> SECT \<notin> set (ascii ''12.5 of 1.2'') \<longrightarrow>
      computeRefDensity (ascii ''12.5 of 1.2'') 3 = Fin 0"
    using refDensity_counts_references [of "ascii ''12.5 of 1.2''" 3]
    by (rule_tac conjunct1 [OF conjunct2 [OF conjunct2 [OF conjunct2 [OF conjunct2
      [OF conjunct2]]]]])
  then have z: "computeRefDensity (ascii ''12.5 of 1.2'') 3 = Fin 0"
    using a by simp
  show ?thesis using v b m z by (intro conjI)
qed

text \<open>
  Claim C6: the pattern finds exactly the quoted spans collected leftmost-first without
  overlap (a left quote, a non-empty run without right quote, the closing right quote); the
  defined-term density is their number divided by the word count \<open>n\<close>, rounded to the
  nearest float, with no scaling. For \<open>n > 0\<close> it is a finite number that differs from the
  exact quotient by at most one part in \<open>2 ^ 53\<close> of it. The spans lie side by side in the
  text, so their lengths add up to at most the length of the text: no character is counted
  in two spans.
\<close>
theorem defDensity_counts_quoted_spans:
  "or_empty (js_match DEF_RE s) = quoted_spans s \<and>
   computeDefFreq s n = js_div (num (length (quoted_spans s))) (num n) \<and>
   (0 < n \<and> n < 2 ^ 53 \<and> length s < 2 ^ 53 \<longrightarrow>
      (\<exists>v. computeDefFreq s n = Fin v \<and>
         \<bar>v - of_nat (length (quoted_spans s)) / of_nat n\<bar> \<le>
           of_nat (length (quoted_spans s)) / of_nat n / 2 ^ 53)) \<and>
   (\<forall>m \<in> set (quoted_spans s). \<exists>body. m = LDQ # body @ [RDQ] \<and> body \<noteq> [] \<and> RDQ \<notin> set body) \<and>
   sum_list (map length (quoted_spans s)) \<le> length s"
proof (intro conjI)
  show "or_empty (js_match DEF_RE s) = quoted_spans s"
    by (simp add: or_empty_match match_all_DEF_RE)
  show "computeDefFreq s n = js_div (num (length (quoted_spans s))) (num n)"
    by (rule defFreq_value)
  show "0 < n \<and> n < 2 ^ 53 \<and> length s < 2 ^ 53 \<longrightarrow>
      (\<exists>v. computeDefFreq s n = Fin v \<and>
         \<bar>v - of_nat (length (quoted_spans s)) / of_nat n\<bar> \<le>
           of_nat (length (quoted_spans s)) / of_nat n / 2 ^ 53)"
  proof
    assume h: "0 < n \<and> n < 2 ^ 53 \<and> length s < 2 ^ 53"
    have "length (quoted_spans s) < 2 ^ 53" using h quoted_spans_le_length [of s] by linarith
    then show "\<exists>v. computeDefFreq s n = Fin v \<and>
         \<bar>v - of_nat (length (quoted_spans s)) / of_nat n\<bar> \<le>
           of_nat (length (quoted_spans s)) / of_nat n / 2 ^ 53"
      using h quotient_close [of n "length (quoted_spans s)"] by (simp only: defFreq_value)
  qed
  show "\<forall>m \<in> set (quoted_spans s). \<exists>body. m = LDQ # body @ [RDQ] \<and> body \<noteq> [] \<and> RDQ \<notin> set body"
    using quoted_spans_shape by blast
  show "sum_list (map length (quoted_spans s)) \<le> length s"
    by (rule quoted_spans_total)
qed

theorem defDensity_counts_quoted_spans_witness:
  "computeDefFreq scenario1 9 = Fin (2001599834386887 / 18014398509481984) \<and>
   quoted_spans nested1 = [[LDQ] @ ascii ''a '' @ [LDQ] @ ascii ''b'' @ [RDQ]] \<and>
   computeDefFreq nested1 3 = Fin (6004799503160661 / 18014398509481984) \<and>
   (\<exists>v. computeDefFreq nested1 3 = Fin v \<and> \<bar>v - 1 / 3\<bar> \<le> 1 / 3 / 2 ^ 53) \<and>
   (\<exists>body. [LDQ] @ ascii ''a '' @ [LDQ] @ ascii ''b'' @ [RDQ] = LDQ # body @ [RDQ] \<and>
      body \<noteq> [] \<and> RDQ \<notin> set body)"
proof -
  note t = defDensity_counts_quoted_spans [of nested1 3]
  have n: "quoted_spans nested1 = [[LDQ] @ ascii ''a '' @ [LDQ] @ ascii ''b'' @ [RDQ]]"
    by (simp add: nested1_def ascii_def LDQ_def RDQ_def quoted_at_def quote_body_def)
  have s: "quoted_spans scenario1 = [[LDQ] @ ascii ''widget'' @ [RDQ]]"
    using defDensity_counts_quoted_spans [of scenario1 9]
    by (simp add: or_empty_match scenario1_defs)
  have "computeDefFreq scenario1 9 = js_div (num (length (quoted_spans scenario1))) (num 9)"
    using defDensity_counts_quoted_spans [of scenario1 9] by (rule_tac conjunct1 [OF conjunct2])
  then have a: "computeDefFreq scenario1 9 = Fin (2001599834386887 / 18014398509481984)"
    by (simp add: s num_def round64_ninth)
  have "computeDefFreq nested1 3 = js_div (num (length (quoted_spans nested1))) (num 3)"
    using t by (rule_tac conjunct1 [OF conjunct2])
  then have b: "computeDefFreq nested1 3 = Fin (6004799503160661 / 18014398509481984)"
    by (simp add: n num_def round64_third)
  have l: "0 < (3::nat) \<and> (3::nat) < 2 ^ 53 \<and> length nested1 < 2 ^ 53"
    by (simp add: nested1_def ascii_def)
  have "0 < (3::nat) \<and> (3::nat) < 2 ^ 53 \<and> length nested1 < 2 ^ 53 \<longrightarrow>
      (\<exists>v. computeDefFreq nested1 3 = Fin v \<and>
         \<bar>v - of_nat (length (quoted_spans nested1)) / of_nat 3\<bar> \<le>
           of_nat (length (quoted_spans nested1)) / of_nat 3 / 2 ^ 53)"
    using t by (rule_tac conjunct1 [OF conjunct2 [OF conjunct2]])
  then have "\<exists>v. computeDefFreq nested1 3 = Fin v \<and>
         \<bar>v - of_nat (length (quoted_spans nested1)) / of_nat 3\<bar> \<le>
           of_nat (length (quoted_spans nested1)) / of_nat 3 / 2 ^ 53"
    using l by (rule_tac mp)
  then have c: "\<exists>v. computeDefFreq nested1 3 = Fin v \<and> \<bar>v - 1 / 3\<bar> \<le> 1 / 3 / 2 ^ 53"
    by (simp add: n)
  have "\<forall>m \<in> set (quoted_spans nested1).
      \<exists>body. m = LDQ # body @ [RDQ] \<and> body \<noteq> [] \<and> RDQ \<notin> set body"
    using t by (rule_tac conjunct1 [OF conjunct2 [OF conjunct2 [OF conjunct2]]])
  then have d: "\<exists>body. [LDQ] @ ascii ''a '' @ [LDQ] @ ascii ''b'' @ [RDQ] = LDQ # body @ [RDQ] \<and>
      body \<noteq> [] \<and> RDQ \<notin> set body"
    by (simp only: n list.set ball_simps insert_iff empty_iff simp_thms)
  show ?thesis using a n b c d by (intro conjI)
qed

section \<open>The claims about the checksum, the run and the store\<close>

text \<open>
  Claim C4: the checksum of a text is a string of 64 hexadecimal digits, and it is a
  function of the bytes of the text alone: texts with the same UTF-8 bytes have the same
  checksum, and two snapshots of the same content carry the same checksum whatever their
  title, date or time of capture.
\<close>
theorem checksum_deterministic_hex:
  "length (computeChecksum t) = 64 \<and>
   (\<forall>c \<in> set (computeChecksum t). is_hex c) \<and>
   (utf8 t = utf8 t' \<longrightarrow> computeChecksum t = computeChecksum t') \<and>
   (info_content i = info_content i' \<longrightarrow> checksum (snapshot_of i) = checksum (snapshot_of i'))"
  by (simp add: computeChecksum_def length_digest_hex digest_hex_is_hex checksum_snapshot)

theorem checksum_deterministic_hex_witness:
  "computeChecksum [0xD800] = computeChecksum [0xFFFD] \<and>
   checksum (snapshot_of \<lparr>info_agency = title_name 1, info_title = title_name 1,
       info_versionDate = 19000, info_content = scenario1\<rparr>) =
   checksum (snapshot_of \<lparr>info_agency = title_name 1, info_title = title_name 1,
       info_versionDate = 19001, info_content = scenario1\<rparr>)"
proof -
  have u: "utf8 [0xD800] = utf8 [0xFFFD]"
    by (simp add: utf8_unit_def utf8_point_def is_high_def is_low_def)
  have "computeChecksum [0xD800] = computeChecksum [0xFFFD]"
    using u checksum_deterministic_hex [of "[0xD800]" "[0xFFFD]"] by blast
  moreover have "checksum (snapshot_of \<lparr>info_agency = title_name 1, info_title = title_name 1,
       info_versionDate = 19000, info_content = scenario1\<rparr>) =
   checksum (snapshot_of \<lparr>info_agency = title_name 1, info_title = title_name 1,
       info_versionDate = 19001, info_content = scenario1\<rparr>)"
    using checksum_deterministic_hex [of "[]" "[]"
        "\<lparr>info_agency = title_name 1, info_title = title_name 1,
       info_versionDate = 19000, info_content = scenario1\<rparr>"
        "\<lparr>info_agency = title_name 1, info_title = title_name 1,
       info_versionDate = 19001, info_content = scenario1\<rparr>"]
    by simp
  ultimately show ?thesis by (rule conjI)
qed

text \<open>
  Claim C2 asks that a failure in any stage of a unit, persistence included, ends only
  that unit and that the run goes on with the others. An error inside \<^verbatim>\<open>fetchTitle\<close>
  does (\<open>fetch_failure_is_skipped\<close>, \<open>fetch_failure_is_logged\<close>), but a write that
  \<^verbatim>\<open>Regulation.create\<close> rejects is caught nowhere in the loop: it ends \<^verbatim>\<open>ingestAll\<close>,
  whatever titles are left. With three titles and a store that refuses the second, the
  third is never fetched.
\<close>
theorem rejected_write_ends_the_run:
  "fetchTitle w t = (Some info, lines) \<Longrightarrow>
   Regulation_create w store (snapshot_of info) = Inl e \<Longrightarrow>
   ingest_loop w (t # ts) store out = Rejected e store (out @ lines)"
  by (simp add: Let_def)

theorem rejected_write_ends_the_run_witness:
  "ingestAll refusing_world [] =
     Rejected StoreError [(1, sample_snapshot 1)]
       [Ingested (title_name 1) (title_name 1) 19000 (Fin 0) (Fin 0)]"
proof -
  let ?s1 = "[(1, sample_snapshot 1)]"
  let ?o1 = "[Ingested (title_name 1) (title_name 1) 19000 (Fin 0) (Fin 0)]"
  have f2: "fetchTitle refusing_world 2 = (Some (sample_info 2), [])"
    by (simp add: fetch_refusing fetch_sample)
  have c2: "Regulation_create refusing_world ?s1 (snapshot_of (sample_info 2)) = Inl StoreError"
    using valid_sample [of 2]
    by (simp add: Regulation_create_def refusing_world_def snapshot_sample)
       (simp add: sample_snapshot_def)
  have r: "ingest_loop refusing_world (2 # [3]) ?s1 ?o1 = Rejected StoreError ?s1 (?o1 @ [])"
    using f2 c2 by (rule rejected_write_ends_the_run)
  have "ingest_loop refusing_world [1, 2, 3] [] [] = ingest_loop refusing_world [2, 3] ?s1 ?o1"
    by (rule refusing_first_step)
  also have "\<dots> = Rejected StoreError ?s1 (?o1 @ [])" by (rule r)
  finally have "ingest_loop refusing_world [1, 2, 3] [] [] = Rejected StoreError ?s1 ?o1"
    by simp
  then show ?thesis
    by (simp add: ingestAll_def refusing_world_def sample_world_def sample_index_def)
qed

text \<open>
  Claim C8: a write appends one document under an id that no stored document has and
  leaves every stored document as it was; a run, completed or not, only appends to the
  collection; and running again in the same world appends the same documents once more,
  next to the earlier ones.
\<close>
theorem writes_only_insert:
  "(Regulation_create w store doc = Inr store' \<longrightarrow>
      store' = store @ [(fresh_id store, doc)] \<and> fresh_id store \<notin> fst ` set store) \<and>
   (ingestAll w store = Completed store' out \<longrightarrow>
      (\<exists>new. store' = store @ new \<and>
         (\<exists>new2 out2. ingestAll w store' = Completed (store' @ new2) out2 \<and>
            map snd new2 = map snd new))) \<and>
   (ingestAll w store = Rejected e store' out \<longrightarrow> (\<exists>new. store' = store @ new))"
proof (intro conjI impI)
  assume "Regulation_create w store doc = Inr store'"
  then show "store' = store @ [(fresh_id store, doc)]" by (rule create_appends)
next
  show "fresh_id store \<notin> fst ` set store" by (rule fresh_id_new)
next
  assume c: "ingestAll w store = Completed store' out"
  then obtain data where d: "titles_index w = Inr data" and cf: "\<not> connect_fails w"
    by (auto simp: ingestAll_def split: sum.splits if_splits)
  from c d cf obtain o1 where
    l: "ingest_loop w (map number (titles data)) store [] = Completed store' o1"
    by (auto simp: ingestAll_def split: run.splits)
  then obtain new where new: "store' = store @ new"
    "map snd new = new_docs w (map number (titles data))"
    using ingest_loop_completed by blast
  from l obtain s2 o2 where
    l2: "ingest_loop w (map number (titles data)) store' [] = Completed s2 o2"
    using ingest_loop_again by blast
  then obtain new2 where new2: "s2 = store' @ new2"
    "map snd new2 = new_docs w (map number (titles data))"
    using ingest_loop_completed by blast
  have "ingestAll w store' = Completed (store' @ new2) (o2 @ [Done_disconnected])"
    using d cf l2 new2(1) by (simp add: ingestAll_def)
  then show "\<exists>new. store' = store @ new \<and>
         (\<exists>new2 out2. ingestAll w store' = Completed (store' @ new2) out2 \<and>
            map snd new2 = map snd new)"
    using new new2(2) by auto
next
  assume "ingestAll w store = Rejected e store' out"
  then show "\<exists>new. store' = store @ new"
    by (auto simp: ingestAll_def split: sum.splits if_splits run.splits dest: ingest_loop_rejected)
qed

theorem writes_only_insert_witness:
  "Regulation_create sample_world [] (sample_snapshot 1) = Inr [(1, sample_snapshot 1)] \<and>
   ingestAll sample_world [] = Completed sample_store sample_out \<and>
   (\<exists>new2 out2. ingestAll sample_world sample_store = Completed (sample_store @ new2) out2 \<and>
      map snd new2 = map snd sample_store)"
proof -
  have c: "Regulation_create sample_world [] (sample_snapshot 1) = Inr [(1, sample_snapshot 1)]"
    using valid_sample [of 1]
    by (simp add: Regulation_create_def sample_world_def fresh_id_def)
  have "\<exists>new. sample_store = [] @ new \<and>
      (\<exists>new2 out2. ingestAll sample_world sample_store = Completed (sample_store @ new2) out2 \<and>
         map snd new2 = map snd new)"
    using sample_run writes_only_insert [of sample_world "[]" _ sample_store sample_out] by blast
  then have "\<exists>new2 out2. ingestAll sample_world sample_store = Completed (sample_store @ new2) out2 \<and>
      map snd new2 = map snd sample_store"
    by simp
  then show ?thesis using c sample_run by blast
qed

text \<open>
  Claim C3, amended: when no section is found, the raw document is the content, and
  nothing tells: \<^verbatim>\<open>fetchTitle\<close> returns agency, title, date and the raw document as
  content, and the snapshot built from it holds the seven fields of the schema, its word
  count, checksum and densities computed over the raw document.
\<close>
theorem fallback_substitutes_raw_document:
  assumes "getLatestVersionDate w n = (Inr d, lines)" and "full_xml w d n = Inr xml"
    and "parse_xml w xml = Inr result" and "section_texts result = []"
  shows "fetchTitle w n =
           (Some \<lparr>info_agency = title_name n, info_title = title_of n result,
                  info_versionDate = d, info_content = xml\<rparr>, lines) \<and>
         snapshot_of \<lparr>info_agency = title_name n, info_title = title_of n result,
                  info_versionDate = d, info_content = xml\<rparr> =
           \<lparr>agency = title_name n, title = title_of n result, versionDate = d,
            wordCount = countWords xml, checksum = computeChecksum xml,
            refDensity = computeRefDensity xml (countWords xml),
            defFreq = computeDefFreq xml (countWords xml)\<rparr>"
  using assms by (simp add: fetchTitle_def content_of_def snapshot_of_def Let_def)

theorem fallback_substitutes_raw_document_witness:
  "fetchTitle fallback_world 1 =
     (Some \<lparr>info_agency = title_name 1, info_title = title_name 1, info_versionDate = 19000,
            info_content = ascii ''<a/>''\<rparr>, [])"
proof -
  have "getLatestVersionDate fallback_world 1 = (Inr 19000, [])"
    by (simp add: getLatestVersionDate_def fallback_world_def one_title_index_def)
  moreover have "full_xml fallback_world 19000 1 = Inr (ascii ''<a/>'')"
    "parse_xml fallback_world (ascii ''<a/>'') = Inr None"
    by (simp_all add: fallback_world_def)
  moreover have "section_texts None = []" by (simp add: section_texts_def)
  ultimately have "fetchTitle fallback_world 1 =
     (Some \<lparr>info_agency = title_name 1, info_title = title_of 1 None, info_versionDate = 19000,
            info_content = ascii ''<a/>''\<rparr>, [])"
    using fallback_substitutes_raw_document [of fallback_world 1 19000 "[]" "ascii ''<a/>''" None]
    by blast
  then show ?thesis by (simp add: title_of_def)
qed

text \<open>
  Claim C3 as stated fails: the document \<^verbatim>\<open><a/>\<close> takes the fallback, a regulation
  whose one section is labelled \<^verbatim>\<open><a/>\<close> does not, and \<^verbatim>\<open>fetchTitle\<close> returns the same
  value and the run writes the same snapshot for both.
\<close>
theorem fallback_not_flagged_counterexample:
  "section_texts None = [] \<and> section_texts labelled_doc \<noteq> [] \<and>
   parse_xml fallback_world (ascii ''<a/>'') = Inr None \<and>
   fetchTitle fallback_world 1 = fetchTitle sectioned_world 1 \<and>
   ingestAll fallback_world [] = ingestAll sectioned_world []"
proof -
  have "ingest_loop fallback_world ts s out = ingest_loop sectioned_world ts s out" for ts s out
    by (rule ingest_loop_same_fetch, rule fetch_fallback_sectioned)
       (simp add: fallback_world_def sectioned_world_def)
  then have "ingestAll fallback_world [] = ingestAll sectioned_world []"
    by (simp add: ingestAll_def fallback_world_def sectioned_world_def)
  then show ?thesis
    by (simp add: section_texts_labelled fetch_fallback_sectioned)
       (simp add: section_texts_def fallback_world_def)
qed

section \<open>The claims about the read endpoints\<close>

text \<open>
  Claim C10, amended: when every name holds a digit (and its first run of digits is a
  number below \<open>2^53\<close>, which \<^verbatim>\<open>parseInt\<close> returns exactly), the endpoint answers with
  the names sorted ascending by the number their first run of digits spells, names of equal
  number in their given order. When there are two names or more and one of them holds no
  digit, the comparator throws and the answer is status 500. A list of fewer than two names
  is answered as it is: nothing is compared.
\<close>
theorem agencies_sorted_or_500:
  "((\<forall>a \<in> set names. has_digit a \<and> agency_key a < 2 ^ 53) \<longrightarrow>
      agencies_handler (Inr names) = Json (sort_key agency_key names) \<and>
      sorted (map agency_key (sort_key agency_key names)) \<and>
      mset (sort_key agency_key names) = mset names) \<and>
   (2 \<le> length names \<and> (\<exists>a \<in> set names. \<not> has_digit a) \<longrightarrow>
      agencies_handler (Inr names) = Status 500) \<and>
   (length names < 2 \<longrightarrow> agencies_handler (Inr names) = Json names)"
  by (simp add: agencies_handler_def sort_by_good sort_by_bad sort_by_short)

theorem agencies_sorted_or_500_witness:
  "agencies_handler (Inr [ascii ''Title 10'', ascii ''Title 2'', ascii ''Title 1'']) =
     Json [ascii ''Title 1'', ascii ''Title 2'', ascii ''Title 10''] \<and>
   agencies_handler (Inr [ascii ''Title 1'', ascii ''EPA'']) = Status 500"
proof -
  let ?names = "[ascii ''Title 10'', ascii ''Title 2'', ascii ''Title 1'']"
  have k: "agency_key (ascii ''Title 10'') = 10" "agency_key (ascii ''Title 2'') = 2"
    "agency_key (ascii ''Title 1'') = 1"
    by (simp_all add: agency_key_def first_digits_def parseInt10_def ascii_def is_digit_def)
  have d: "\<forall>a \<in> set ?names. has_digit a \<and> agency_key a < 2 ^ 53"
    by (simp add: k) (simp add: has_digit_def ascii_def is_digit_def)
  have "agencies_handler (Inr ?names) = Json (sort_key agency_key ?names)"
    using d agencies_sorted_or_500 [of ?names] by blast
  then have a: "agencies_handler (Inr ?names) =
      Json [ascii ''Title 1'', ascii ''Title 2'', ascii ''Title 10'']"
    by (simp add: k)
  have "2 \<le> length [ascii ''Title 1'', ascii ''EPA''] \<and>
      (\<exists>a \<in> set [ascii ''Title 1'', ascii ''EPA'']. \<not> has_digit a)"
    by (simp add: has_digit_def ascii_def is_digit_def)
  then have "agencies_handler (Inr [ascii ''Title 1'', ascii ''EPA'']) = Status 500"
    using agencies_sorted_or_500 [of "[ascii ''Title 1'', ascii ''EPA'']"] by blast
  then show ?thesis using a by (rule conjI [rotated])
qed

text \<open>
  Claim C10 as stated fails: when the only agency in the store is \<^verbatim>\<open>EPA\<close>, which holds
  no digit, the endpoint answers with the list and no error.
\<close>
theorem single_agency_without_digit_counterexample:
  "\<not> has_digit (ascii ''EPA'') \<and>
   distinct_agencies [(1, (sample_snapshot 1)\<lparr>agency := ascii ''EPA''\<rparr>)] = [ascii ''EPA''] \<and>
   agencies_handler (Inr [ascii ''EPA'']) = Json [ascii ''EPA'']"
  by (simp add: has_digit_def ascii_def is_digit_def agencies_handler_def distinct_agencies_def)

text \<open>
  Claim C9, amended: for an agency with a stored snapshot the endpoint answers with the
  four fields word count, checksum, reference density and defined-term density of a
  snapshot of that agency whose as-of date (\<^verbatim>\<open>versionDate\<close>) no other snapshot of the
  agency exceeds.
\<close>
theorem metrics_of_latest_date:
  "(\<exists>d \<in> snd ` set store. agency d = a) \<longrightarrow>
     (\<exists>d \<in> snd ` set store. agency d = a \<and>
        (\<forall>d' \<in> snd ` set store. agency d' = a \<longrightarrow> versionDate d' \<le> versionDate d) \<and>
        metrics_handler (Inr (find_latest store a)) = Json (metrics_of d))"
proof
  assume ex: "\<exists>d \<in> snd ` set store. agency d = a"
  let ?ms = "filter (\<lambda>d. agency d = a) (map snd store)"
  let ?f = "\<lambda>d. - int (versionDate d)"
  have ne: "?ms \<noteq> []" using ex by (auto simp: filter_empty_conv)
  then have ne': "sort_key ?f ?ms \<noteq> []" by (metis length_sort length_0_conv)
  let ?d = "hd (sort_key ?f ?ms)"
  have "?d \<in> set (sort_key ?f ?ms)" using ne' by (rule hd_in_set)
  then have mem: "?d \<in> set ?ms" by (simp only: set_sort)
  then have m1: "?d \<in> snd ` set store" and m2: "agency ?d = a" by auto
  have top: "\<forall>d' \<in> set ?ms. versionDate d' \<le> versionDate ?d"
  proof
    fix d' assume "d' \<in> set ?ms"
    then have "?f ?d \<le> ?f d'" using ne by (intro hd_sort_key_min)
    then show "versionDate d' \<le> versionDate ?d" by simp
  qed
  have "find_latest store a = [?d]"
    using ne' by (cases "sort_key ?f ?ms") (simp_all add: find_latest_def)
  then have "metrics_handler (Inr (find_latest store a)) = Json (metrics_of ?d)"
    by (simp add: metrics_handler_def)
  moreover have "\<forall>d' \<in> snd ` set store. agency d' = a \<longrightarrow> versionDate d' \<le> versionDate ?d"
    using top by auto
  ultimately have "agency ?d = a \<and>
        (\<forall>d' \<in> snd ` set store. agency d' = a \<longrightarrow> versionDate d' \<le> versionDate ?d) \<and>
        metrics_handler (Inr (find_latest store a)) = Json (metrics_of ?d)"
    using m2 by blast
  then show "\<exists>d \<in> snd ` set store. agency d = a \<and>
        (\<forall>d' \<in> snd ` set store. agency d' = a \<longrightarrow> versionDate d' \<le> versionDate d) \<and>
        metrics_handler (Inr (find_latest store a)) = Json (metrics_of d)"
    using m1 by blast
qed

theorem metrics_of_latest_date_witness:
  "metrics_handler (Inr (find_latest three_snapshots (title_name 1))) =
     Json (metrics_of ((sample_snapshot 1)\<lparr>versionDate := 19002, wordCount := 5\<rparr>)) \<and>
   m_wordCount (metrics_of ((sample_snapshot 1)\<lparr>versionDate := 19002, wordCount := 5\<rparr>)) = 5 \<and>
   map (\<lambda>d. (versionDate d, wordCount d))
     (filter (\<lambda>d. agency d = title_name 1) (map snd three_snapshots)) =
     [(19000, 7), (19002, 5), (19001, 9)]"
proof -
  let ?top = "(sample_snapshot 1)\<lparr>versionDate := 19002, wordCount := 5\<rparr>"
  have ne: "title_name 2 \<noteq> title_name 1" by (simp add: title_name_eq)
  have in3: "?top \<in> snd ` set three_snapshots" by (simp add: three_snapshots_def)
  have ag: "agency ?top = title_name 1" by (simp add: sample_snapshot_def)
  have e: "\<exists>d \<in> snd ` set three_snapshots. agency d = title_name 1"
    using in3 ag by blast
  obtain d where d: "d \<in> snd ` set three_snapshots" "agency d = title_name 1"
    "\<forall>d' \<in> snd ` set three_snapshots.
       agency d' = title_name 1 \<longrightarrow> versionDate d' \<le> versionDate d"
    "metrics_handler (Inr (find_latest three_snapshots (title_name 1))) = Json (metrics_of d)"
    using metrics_of_latest_date [of three_snapshots "title_name 1"] e by blast
  have late: "19002 \<le> versionDate d" using d(3) in3 ag by fastforce
  have "d = ?top"
    using d(1,2) late ne by (auto simp: three_snapshots_def sample_snapshot_def)
  then have a: "metrics_handler (Inr (find_latest three_snapshots (title_name 1))) =
      Json (metrics_of ?top)"
    using d(4) by simp
  have b: "m_wordCount (metrics_of ?top) = 5" by (simp add: metrics_of_def)
  have c: "map (\<lambda>d. (versionDate d, wordCount d))
     (filter (\<lambda>d. agency d = title_name 1) (map snd three_snapshots)) =
     [(19000, 7), (19002, 5), (19001, 9)]"
    using ne by (simp add: three_snapshots_def sample_snapshot_def)
  show ?thesis using a b c by (intro conjI)
qed

text \<open>
  Claim C9 as stated fails: of two snapshots of one agency, the first written with the
  later as-of date, the endpoint answers with the first, not with the one written last.
\<close>
theorem latest_written_not_returned_counterexample:
  "metrics_handler (Inr (find_latest two_snapshots (title_name 1))) =
     Json (metrics_of (snd (hd two_snapshots))) \<and>
   metrics_of (snd (hd two_snapshots)) \<noteq> metrics_of (snd (last two_snapshots)) \<and>
   agency (snd (last two_snapshots)) = title_name 1"
  by (simp add: two_snapshots_def find_latest_def metrics_handler_def metrics_of_def
      sample_snapshot_def)

end
